theory Spec2Isabelle
  imports Main "HOL-Library.Word" "HOL-Library.Monad_Syntax"
begin

section \<open>Common conventions\<close>

text \<open>
  The two containers of the repository, \<^verbatim>\<open>Homebrew::AvlTree<T>\<close> (avltree.hpp) and
  \<^verbatim>\<open>Homebrew::AvlMap<Key, Value>\<close> (avlmap.hpp), are embedded function by function.

  \<^item> A \<^verbatim>\<open>std::unique_ptr<Node>\<close> is a tree value: \<open>Null\<close> is \<^verbatim>\<open>nullptr\<close>, a node
    carries its fields in the order of the C++ struct (left, right, payload, height).
  \<^item> The element count \<^verbatim>\<open>std::size_t sz\<close> is a 64-bit word (its width on the usual
    64-bit platforms), so that \<^verbatim>\<open>++sz\<close> and \<^verbatim>\<open>--sz\<close> wrap around as the unsigned type does.
  \<^item> The cached height \<^verbatim>\<open>std::int32_t height\<close> is an \<open>int\<close>: a height field never
    exceeds the number of nodes on a path, far below \<open>2^31\<close>, so no height computation
    overflows.
  \<^item> The key type is a \<open>linorder\<close>: \<^verbatim>\<open>operator<\<close> is a strict total order and
    \<^verbatim>\<open>operator==\<close> is equality.
  \<^item> A function of the source that dereferences pointers returns an \<open>option\<close>:
    \<open>None\<close> means that the call has no defined result (a null pointer is dereferenced,
    or a loop never ends). An exception is a value \<open>Inl e\<close> of a sum type.
\<close>

type_synonym size_t = "64 word"

datatype error = EmptyContainer | NotFound

section \<open>The set: class AvlTree (avltree.hpp)\<close>

datatype 'a tree = Null | Node "'a tree" "'a tree" 'a int

record 'a AvlTree =
  root :: "'a tree"
  sz :: size_t

definition AvlTree_new :: "'a AvlTree" where
  "AvlTree_new = \<lparr>root = Null, sz = 0\<rparr>"

definition AvlTree_empty :: "'a AvlTree \<Rightarrow> bool" where
  "AvlTree_empty c \<longleftrightarrow> sz c = 0"

definition AvlTree_size :: "'a AvlTree \<Rightarrow> size_t" where
  "AvlTree_size c = sz c"

fun height :: "'a tree \<Rightarrow> int" where
  "height Null = - 1"
| "height (Node l r d h) = h"

definition ALLOWED_IMBALANCE :: int where
  "ALLOWED_IMBALANCE = 1"

fun rotateWithLeftChild :: "'a tree \<Rightarrow> 'a tree option" where
  "rotateWithLeftChild (Node (Node k1l k1r k1d k1h) k2r k2d k2h) =
     (let k2h' = max (height k1r) (height k2r) + 1;
          k1h' = max (height k1l) k2h' + 1
      in Some (Node k1l (Node k1r k2r k2d k2h') k1d k1h'))"
| "rotateWithLeftChild _ = None"

fun rotateWithRightChild :: "'a tree \<Rightarrow> 'a tree option" where
  "rotateWithRightChild (Node k1l (Node k2l k2r k2d k2h) k1d k1h) =
     (let k1h' = max (height k1l) (height k2l) + 1;
          k2h' = max (height k2r) k1h' + 1
      in Some (Node (Node k1l k2l k1d k1h') k2r k2d k2h'))"
| "rotateWithRightChild _ = None"

fun doubleWithLeftChild :: "'a tree \<Rightarrow> 'a tree option" where
  "doubleWithLeftChild (Node l r d h) =
     do { l' \<leftarrow> rotateWithRightChild l; rotateWithLeftChild (Node l' r d h) }"
| "doubleWithLeftChild Null = None"

fun doubleWithRightChild :: "'a tree \<Rightarrow> 'a tree option" where
  "doubleWithRightChild (Node l r d h) =
     do { r' \<leftarrow> rotateWithLeftChild r; rotateWithRightChild (Node l r' d h) }"
| "doubleWithRightChild Null = None"

text \<open>The last statement of \<^verbatim>\<open>balance\<close>: \<^verbatim>\<open>t->height = max(height(t->left), height(t->right)) + 1\<close>.\<close>

fun set_height :: "'a tree \<Rightarrow> 'a tree option" where
  "set_height Null = None"
| "set_height (Node l r d h) = Some (Node l r d (max (height l) (height r) + 1))"

fun balance :: "'a tree \<Rightarrow> 'a tree option" where
  "balance Null = Some Null"
| "balance (Node l r d h) =
     do {
       t' \<leftarrow>
         (if height l - height r > ALLOWED_IMBALANCE then
            (case l of
               Null \<Rightarrow> None
             | Node ll lr ld lh \<Rightarrow>
                 if height ll \<ge> height lr then rotateWithLeftChild (Node l r d h)
                 else doubleWithLeftChild (Node l r d h))
          else if height r - height l > ALLOWED_IMBALANCE then
            (case r of
               Null \<Rightarrow> None
             | Node rl rr rd rh \<Rightarrow>
                 if height rr \<ge> height rl then rotateWithRightChild (Node l r d h)
                 else doubleWithRightChild (Node l r d h))
          else Some (Node l r d h));
       set_height t'
     }"

text \<open>\<^verbatim>\<open>findMin\<close> and \<^verbatim>\<open>findMax\<close> return a node pointer: the subtree at that node, or \<open>Null\<close>.\<close>

fun findMin :: "'a tree \<Rightarrow> 'a tree" where
  "findMin Null = Null"
| "findMin (Node Null r d h) = Node Null r d h"
| "findMin (Node l r d h) = findMin l"

fun findMax :: "'a tree \<Rightarrow> 'a tree" where
  "findMax Null = Null"
| "findMax (Node l Null d h) = Node l Null d h"
| "findMax (Node l r d h) = findMax r"

text \<open>Dereferencing a node pointer for its payload (\<^verbatim>\<open>Node::operator*\<close>).\<close>

fun deref :: "'a tree \<Rightarrow> 'a option" where
  "deref Null = None"
| "deref (Node l r d h) = Some d"

text \<open>
  \<^verbatim>\<open>insert_util\<close> and \<^verbatim>\<open>remove_util\<close> of the set write to the member \<^verbatim>\<open>sz\<close>, so the
  count is threaded through them together with the subtree they rewrite.
\<close>

fun insert_util :: "'a::linorder \<Rightarrow> 'a tree \<Rightarrow> size_t \<Rightarrow> ('a tree \<times> size_t) option" where
  "insert_util x Null s =
     do { t' \<leftarrow> balance (Node Null Null x 0); Some (t', s) }"
| "insert_util x (Node l r d h) s =
     (if x < d then
        do { (l', s') \<leftarrow> insert_util x l s; t' \<leftarrow> balance (Node l' r d h); Some (t', s') }
      else if d < x then
        do { (r', s') \<leftarrow> insert_util x r s; t' \<leftarrow> balance (Node l r' d h); Some (t', s') }
      else
        do { t' \<leftarrow> balance (Node l r d h); Some (t', s - 1) })"

fun remove_util :: "'a::linorder \<Rightarrow> 'a tree \<Rightarrow> size_t \<Rightarrow> ('a tree \<times> size_t) option" where
  "remove_util x Null s = Some (Null, s)"
| "remove_util x (Node l r d h) s =
     (if x < d then
        do { (l', s') \<leftarrow> remove_util x l s; t' \<leftarrow> balance (Node l' r d h); Some (t', s') }
      else if d < x then
        do { (r', s') \<leftarrow> remove_util x r s; t' \<leftarrow> balance (Node l r' d h); Some (t', s') }
      else if d = x then
        Some (Node l r d h, s + 1)
      else if l \<noteq> Null \<and> r \<noteq> Null then
        do {
          m \<leftarrow> deref (findMin r);
          (r', s') \<leftarrow> remove_util m r s;
          t' \<leftarrow> balance (Node l r' m h);
          Some (t', s')
        }
      else
        do { t' \<leftarrow> balance (if l \<noteq> Null then l else r); Some (t', s) })"

definition AvlTree_insert :: "'a::linorder \<Rightarrow> 'a AvlTree \<Rightarrow> 'a AvlTree option" where
  "AvlTree_insert x c =
     do { (t', s') \<leftarrow> insert_util x (root c) (sz c); Some \<lparr>root = t', sz = s' + 1\<rparr> }"

definition AvlTree_remove :: "'a::linorder \<Rightarrow> 'a AvlTree \<Rightarrow> 'a AvlTree option" where
  "AvlTree_remove x c =
     do { (t', s') \<leftarrow> remove_util x (root c) (sz c); Some \<lparr>root = t', sz = s' - 1\<rparr> }"

definition AvlTree_clear :: "'a AvlTree \<Rightarrow> 'a AvlTree" where
  "AvlTree_clear c = c\<lparr>root := Null\<rparr>"

definition min_element :: "'a AvlTree \<Rightarrow> (error + 'a) option" where
  "min_element c =
     (if AvlTree_empty c then Some (Inl EmptyContainer)
      else map_option Inr (deref (findMin (root c))))"

definition max_element :: "'a AvlTree \<Rightarrow> (error + 'a) option" where
  "max_element c =
     (if AvlTree_empty c then Some (Inl EmptyContainer)
      else map_option Inr (deref (findMax (root c))))"

text \<open>The iterator-range constructor: \<^verbatim>\<open>insert(*it)\<close> for every element, in order.\<close>

fun insert_range :: "'a::linorder list \<Rightarrow> 'a AvlTree \<Rightarrow> 'a AvlTree option" where
  "insert_range [] c = Some c"
| "insert_range (x # xs) c = do { c' \<leftarrow> AvlTree_insert x c; insert_range xs c' }"

definition AvlTree_of_range :: "'a::linorder list \<Rightarrow> 'a AvlTree option" where
  "AvlTree_of_range xs = insert_range xs AvlTree_new"

text \<open>The in-order enumeration (the order in which \<^verbatim>\<open>print\<close> visits the nodes).\<close>

fun inorder :: "'a tree \<Rightarrow> 'a list" where
  "inorder Null = []"
| "inorder (Node l r d h) = inorder l @ d # inorder r"

text \<open>The number of nodes reachable from a pointer.\<close>

fun count_nodes :: "'a tree \<Rightarrow> nat" where
  "count_nodes Null = 0"
| "count_nodes (Node l r d h) = count_nodes l + count_nodes r + 1"

section \<open>The map: class AvlMap (avlmap.hpp)\<close>

datatype ('k, 'v) mtree = MNull | MNode "('k, 'v) mtree" "('k, 'v) mtree" 'k 'v int

record ('k, 'v) AvlMap =
  mroot :: "('k, 'v) mtree"
  msz :: size_t

definition AvlMap_new :: "('k, 'v) AvlMap" where
  "AvlMap_new = \<lparr>mroot = MNull, msz = 0\<rparr>"

definition AvlMap_empty :: "('k, 'v) AvlMap \<Rightarrow> bool" where
  "AvlMap_empty m \<longleftrightarrow> msz m = 0"

definition AvlMap_size :: "('k, 'v) AvlMap \<Rightarrow> size_t" where
  "AvlMap_size m = msz m"

fun mheight :: "('k, 'v) mtree \<Rightarrow> int" where
  "mheight MNull = - 1"
| "mheight (MNode l r k v h) = h"

fun mrotateWithLeftChild :: "('k, 'v) mtree \<Rightarrow> ('k, 'v) mtree option" where
  "mrotateWithLeftChild (MNode (MNode k1l k1r k1k k1v k1h) k2r k2k k2v k2h) =
     (let k2h' = max (mheight k1r) (mheight k2r) + 1;
          k1h' = max (mheight k1l) k2h' + 1
      in Some (MNode k1l (MNode k1r k2r k2k k2v k2h') k1k k1v k1h'))"
| "mrotateWithLeftChild _ = None"

fun mrotateWithRightChild :: "('k, 'v) mtree \<Rightarrow> ('k, 'v) mtree option" where
  "mrotateWithRightChild (MNode k1l (MNode k2l k2r k2k k2v k2h) k1k k1v k1h) =
     (let k1h' = max (mheight k1l) (mheight k2l) + 1;
          k2h' = max (mheight k2r) k1h' + 1
      in Some (MNode (MNode k1l k2l k1k k1v k1h') k2r k2k k2v k2h'))"
| "mrotateWithRightChild _ = None"

fun mdoubleWithLeftChild :: "('k, 'v) mtree \<Rightarrow> ('k, 'v) mtree option" where
  "mdoubleWithLeftChild (MNode l r k v h) =
     do { l' \<leftarrow> mrotateWithRightChild l; mrotateWithLeftChild (MNode l' r k v h) }"
| "mdoubleWithLeftChild MNull = None"

fun mdoubleWithRightChild :: "('k, 'v) mtree \<Rightarrow> ('k, 'v) mtree option" where
  "mdoubleWithRightChild (MNode l r k v h) =
     do { r' \<leftarrow> mrotateWithLeftChild r; mrotateWithRightChild (MNode l r' k v h) }"
| "mdoubleWithRightChild MNull = None"

fun mset_height :: "('k, 'v) mtree \<Rightarrow> ('k, 'v) mtree option" where
  "mset_height MNull = None"
| "mset_height (MNode l r k v h) = Some (MNode l r k v (max (mheight l) (mheight r) + 1))"

fun mbalance :: "('k, 'v) mtree \<Rightarrow> ('k, 'v) mtree option" where
  "mbalance MNull = Some MNull"
| "mbalance (MNode l r k v h) =
     do {
       t' \<leftarrow>
         (if mheight l - mheight r > ALLOWED_IMBALANCE then
            (case l of
               MNull \<Rightarrow> None
             | MNode ll lr lk lv lh \<Rightarrow>
                 if mheight ll \<ge> mheight lr then mrotateWithLeftChild (MNode l r k v h)
                 else mdoubleWithLeftChild (MNode l r k v h))
          else if mheight r - mheight l > ALLOWED_IMBALANCE then
            (case r of
               MNull \<Rightarrow> None
             | MNode rl rr rk rv rh \<Rightarrow>
                 if mheight rr \<ge> mheight rl then mrotateWithRightChild (MNode l r k v h)
                 else mdoubleWithRightChild (MNode l r k v h))
          else Some (MNode l r k v h));
       mset_height t'
     }"

fun mfindMin :: "('k, 'v) mtree \<Rightarrow> ('k, 'v) mtree" where
  "mfindMin MNull = MNull"
| "mfindMin (MNode MNull r k v h) = MNode MNull r k v h"
| "mfindMin (MNode l r k v h) = mfindMin l"

text \<open>Member access through a node pointer: \<^verbatim>\<open>p->key\<close> and the conversion to \<^verbatim>\<open>Value&\<close>.\<close>

fun key_of :: "('k, 'v) mtree \<Rightarrow> 'k option" where
  "key_of MNull = None"
| "key_of (MNode l r k v h) = Some k"

fun value_of :: "('k, 'v) mtree \<Rightarrow> 'v option" where
  "value_of MNull = None"
| "value_of (MNode l r k v h) = Some v"

text \<open>The map's \<^verbatim>\<open>insert_util\<close> has no branch for an equal key and never writes \<^verbatim>\<open>sz\<close>.\<close>

fun minsert_util :: "'k::linorder \<Rightarrow> 'v \<Rightarrow> ('k, 'v) mtree \<Rightarrow> ('k, 'v) mtree option" where
  "minsert_util k v MNull = mbalance (MNode MNull MNull k v 0)"
| "minsert_util k v (MNode l r tk tv h) =
     (if k < tk then
        do { l' \<leftarrow> minsert_util k v l; mbalance (MNode l' r tk tv h) }
      else if tk < k then
        do { r' \<leftarrow> minsert_util k v r; mbalance (MNode l r' tk tv h) }
      else
        mbalance (MNode l r tk tv h))"

text \<open>In the two-children case only the key of the successor is copied: the value stays.\<close>

fun mremove_util :: "'k::linorder \<Rightarrow> ('k, 'v) mtree \<Rightarrow> ('k, 'v) mtree option" where
  "mremove_util x MNull = Some MNull"
| "mremove_util x (MNode l r k v h) =
     (if x < k then
        do { l' \<leftarrow> mremove_util x l; mbalance (MNode l' r k v h) }
      else if k < x then
        do { r' \<leftarrow> mremove_util x r; mbalance (MNode l r' k v h) }
      else if l \<noteq> MNull \<and> r \<noteq> MNull then
        do {
          m \<leftarrow> key_of (mfindMin r);
          r' \<leftarrow> mremove_util m r;
          mbalance (MNode l r' m v h)
        }
      else
        mbalance (if l \<noteq> MNull then l else r))"

text \<open>
  The private \<^verbatim>\<open>search\<close> returns a reference to a \<^verbatim>\<open>unique_ptr\<close> inside the tree: the
  root pointer, or the \<^verbatim>\<open>left\<close> or \<^verbatim>\<open>right\<close> member of a node. Such a reference is the
  list of members followed from the root. The test \<^verbatim>\<open>t == nullptr || t->key == x\<close> is
  \<open>stops_at\<close>; the \<^verbatim>\<open>while (true)\<close> loop is \<open>search_loop\<close>, whose last branch (neither
  comparison holds) goes round again with the same node.
\<close>

datatype member = Left | Right

type_synonym slot = "member list"

fun stops_at :: "'k \<Rightarrow> ('k, 'v) mtree \<Rightarrow> bool" where
  "stops_at x MNull = True"
| "stops_at x (MNode l r k v h) = (k = x)"

partial_function (option) search_loop ::
  "'k::linorder \<Rightarrow> ('k, 'v) mtree \<Rightarrow> slot \<Rightarrow> slot option" where
  "search_loop x tmp p =
     (case tmp of
        MNull \<Rightarrow> None
      | MNode l r k v h \<Rightarrow>
          if x < k then
            (if stops_at x l then Some (p @ [Left]) else search_loop x l (p @ [Left]))
          else if k < x then
            (if stops_at x r then Some (p @ [Right]) else search_loop x r (p @ [Right]))
          else search_loop x tmp p)"

definition search :: "'k::linorder \<Rightarrow> ('k, 'v) mtree \<Rightarrow> slot option" where
  "search x t = (if stops_at x t then Some [] else search_loop x t [])"

text \<open>Reading and writing the pointer a reference designates.\<close>

fun slot_get :: "slot \<Rightarrow> ('k, 'v) mtree \<Rightarrow> ('k, 'v) mtree option" where
  "slot_get [] t = Some t"
| "slot_get (d # p) MNull = None"
| "slot_get (Left # p) (MNode l r k v h) = slot_get p l"
| "slot_get (Right # p) (MNode l r k v h) = slot_get p r"

fun slot_set :: "slot \<Rightarrow> ('k, 'v) mtree \<Rightarrow> ('k, 'v) mtree \<Rightarrow> ('k, 'v) mtree option" where
  "slot_set [] n t = Some n"
| "slot_set (d # p) n MNull = None"
| "slot_set (Left # p) n (MNode l r k v h) =
     do { l' \<leftarrow> slot_set p n l; Some (MNode l' r k v h) }"
| "slot_set (Right # p) n (MNode l r k v h) =
     do { r' \<leftarrow> slot_set p n r; Some (MNode l r' k v h) }"

definition AvlMap_insert :: "'k::linorder \<Rightarrow> 'v \<Rightarrow> ('k, 'v) AvlMap \<Rightarrow> ('k, 'v) AvlMap option" where
  "AvlMap_insert k v m =
     do { t' \<leftarrow> minsert_util k v (mroot m); Some \<lparr>mroot = t', msz = msz m + 1\<rparr> }"

definition AvlMap_erase :: "'k::linorder \<Rightarrow> ('k, 'v) AvlMap \<Rightarrow> ('k, 'v) AvlMap option" where
  "AvlMap_erase k m =
     do { t' \<leftarrow> mremove_util k (mroot m); Some \<lparr>mroot = t', msz = msz m - 1\<rparr> }"

definition AvlMap_clear :: "('k, 'v) AvlMap \<Rightarrow> ('k, 'v) AvlMap" where
  "AvlMap_clear m = m\<lparr>mroot := MNull\<rparr>"

text \<open>
  The non-const \<^verbatim>\<open>operator[]\<close>. \<open>dflt\<close> is the value-initialised \<^verbatim>\<open>Value()\<close>. The
  result is the reference returned (the slot, whose node must exist for the conversion
  to \<^verbatim>\<open>Value&\<close>) and the map after the call. \<^verbatim>\<open>insert_util\<close> is called on the slot that
  \<^verbatim>\<open>search\<close> returned, not on the root.
\<close>

definition AvlMap_index ::
  "'v \<Rightarrow> 'k::linorder \<Rightarrow> ('k, 'v) AvlMap \<Rightarrow> (slot \<times> ('k, 'v) AvlMap) option" where
  "AvlMap_index dflt k m =
     do {
       ptr \<leftarrow> search k (mroot m);
       t \<leftarrow> slot_get ptr (mroot m);
       m' \<leftarrow>
         (if t = MNull then
            do {
              t' \<leftarrow> minsert_util k dflt t;
              root' \<leftarrow> slot_set ptr t' (mroot m);
              Some \<lparr>mroot = root', msz = msz m + 1\<rparr>
            }
          else Some m);
       n \<leftarrow> slot_get ptr (mroot m');
       _ \<leftarrow> value_of n;
       Some (ptr, m')
     }"

text \<open>Reading and assigning through a returned \<^verbatim>\<open>Value&\<close>.\<close>

definition read_ref :: "slot \<Rightarrow> ('k, 'v) AvlMap \<Rightarrow> 'v option" where
  "read_ref ptr m = do { n \<leftarrow> slot_get ptr (mroot m); value_of n }"

definition write_ref :: "slot \<Rightarrow> 'v \<Rightarrow> ('k, 'v) AvlMap \<Rightarrow> ('k, 'v) AvlMap option" where
  "write_ref ptr v m =
     do {
       n \<leftarrow> slot_get ptr (mroot m);
       (case n of
          MNull \<Rightarrow> None
        | MNode l r k old h \<Rightarrow>
            do { root' \<leftarrow> slot_set ptr (MNode l r k v h) (mroot m); Some (m\<lparr>mroot := root'\<rparr>) })
     }"

text \<open>The non-const \<^verbatim>\<open>at\<close>: throws \<^verbatim>\<open>std::out_of_range\<close> when the slot found is empty.\<close>

definition AvlMap_at :: "'k::linorder \<Rightarrow> ('k, 'v) AvlMap \<Rightarrow> (error + 'v) option" where
  "AvlMap_at k m =
     do {
       ptr \<leftarrow> search k (mroot m);
       t \<leftarrow> slot_get ptr (mroot m);
       (case t of MNull \<Rightarrow> Some (Inl NotFound) | MNode l r tk v h \<Rightarrow> Some (Inr v))
     }"

text \<open>
  The const \<^verbatim>\<open>at\<close>: its body is \<^verbatim>\<open>return at(k);\<close> inside a const member function, where
  overload resolution selects the const overload again.
\<close>

partial_function (option) AvlMap_at_const ::
  "'k \<Rightarrow> ('k, 'v) AvlMap \<Rightarrow> (error + 'v) option" where
  "AvlMap_at_const k m = AvlMap_at_const k m"

text \<open>The iterator-range constructor of the map: \<^verbatim>\<open>insert(it->first, it->second)\<close>.\<close>

fun minsert_range :: "('k::linorder \<times> 'v) list \<Rightarrow> ('k, 'v) AvlMap \<Rightarrow> ('k, 'v) AvlMap option" where
  "minsert_range [] m = Some m"
| "minsert_range ((k, v) # xs) m = do { m' \<leftarrow> AvlMap_insert k v m; minsert_range xs m' }"

definition AvlMap_of_range :: "('k::linorder \<times> 'v) list \<Rightarrow> ('k, 'v) AvlMap option" where
  "AvlMap_of_range xs = minsert_range xs AvlMap_new"

fun minorder :: "('k, 'v) mtree \<Rightarrow> ('k \<times> 'v) list" where
  "minorder MNull = []"
| "minorder (MNode l r k v h) = minorder l @ (k, v) # minorder r"

fun mcount_nodes :: "('k, 'v) mtree \<Rightarrow> nat" where
  "mcount_nodes MNull = 0"
| "mcount_nodes (MNode l r k v h) = mcount_nodes l + mcount_nodes r + 1"

section \<open>The invariants of the data model\<close>

text \<open>
  The height of a subtree is the length of the longest downward path, \<open>- 1\<close> for the
  empty subtree. \<open>balanced\<close> is the AVL condition on these heights, \<open>heights_cached\<close> says
  that every height field holds \<open>1 + max\<close> of the heights read from its children, and
  \<open>bst\<close> that the in-order sequence of keys is strictly ascending.
\<close>

fun true_height :: "'a tree \<Rightarrow> int" where
  "true_height Null = - 1"
| "true_height (Node l r d h) = 1 + max (true_height l) (true_height r)"

fun balanced :: "'a tree \<Rightarrow> bool" where
  "balanced Null = True"
| "balanced (Node l r d h) =
     (\<bar>true_height l - true_height r\<bar> \<le> 1 \<and> balanced l \<and> balanced r)"

fun heights_cached :: "'a tree \<Rightarrow> bool" where
  "heights_cached Null = True"
| "heights_cached (Node l r d h) =
     (h = 1 + max (height l) (height r) \<and> heights_cached l \<and> heights_cached r)"

definition bst :: "'a::linorder tree \<Rightarrow> bool" where
  "bst t = sorted_wrt (<) (inorder t)"

fun mtrue_height :: "('k, 'v) mtree \<Rightarrow> int" where
  "mtrue_height MNull = - 1"
| "mtrue_height (MNode l r k v h) = 1 + max (mtrue_height l) (mtrue_height r)"

fun mbalanced :: "('k, 'v) mtree \<Rightarrow> bool" where
  "mbalanced MNull = True"
| "mbalanced (MNode l r k v h) =
     (\<bar>mtrue_height l - mtrue_height r\<bar> \<le> 1 \<and> mbalanced l \<and> mbalanced r)"

fun mheights_cached :: "('k, 'v) mtree \<Rightarrow> bool" where
  "mheights_cached MNull = True"
| "mheights_cached (MNode l r k v h) =
     (h = 1 + max (mheight l) (mheight r) \<and> mheights_cached l \<and> mheights_cached r)"

definition mbst :: "('k::linorder, 'v) mtree \<Rightarrow> bool" where
  "mbst t = sorted_wrt (<) (map fst (minorder t))"

text \<open>Every height field is at least 0: what the rotations need to find the nodes they move.\<close>

fun mheights_nonneg :: "('k, 'v) mtree \<Rightarrow> bool" where
  "mheights_nonneg MNull = True"
| "mheights_nonneg (MNode l r k v h) = (0 \<le> h \<and> mheights_nonneg l \<and> mheights_nonneg r)"

text \<open>The keys stored in a map tree.\<close>

fun mkeys :: "('k, 'v) mtree \<Rightarrow> 'k set" where
  "mkeys MNull = {}"
| "mkeys (MNode l r k v h) = mkeys l \<union> {k} \<union> mkeys r"

text \<open>
  Insertion into a key-sorted association list that keeps the entry of a key already
  there: what the map's \<^verbatim>\<open>insert\<close> does to the in-order sequence.
\<close>

fun ins_kv :: "'k::linorder \<Rightarrow> 'v \<Rightarrow> ('k \<times> 'v) list \<Rightarrow> ('k \<times> 'v) list" where
  "ins_kv k v [] = [(k, v)]"
| "ins_kv k v ((a, b) # xs) =
     (if k < a then (k, v) # (a, b) # xs
      else if a < k then (a, b) # ins_kv k v xs
      else (a, b) # xs)"

abbreviation ksorted :: "('k::linorder \<times> 'v) list \<Rightarrow> bool" where
  "ksorted xs \<equiv> sorted_wrt (<) (map fst xs)"

abbreviation mkeys_list :: "('k, 'v) mtree \<Rightarrow> 'k list" where
  "mkeys_list t \<equiv> map fst (minorder t)"

text \<open>
  The AVL condition as the code can test it, on the cached heights: the heights of the
  two children differ by at most 1 and the height field holds \<open>1 + max\<close> of them.
\<close>

fun mavl :: "('k, 'v) mtree \<Rightarrow> bool" where
  "mavl MNull = True"
| "mavl (MNode l r k v h) =
     (\<bar>mheight l - mheight r\<bar> \<le> 1 \<and> h = 1 + max (mheight l) (mheight r) \<and> mavl l \<and> mavl r)"

text \<open>
  The states of a map that a program reaches through the public mutating operations:
  construction, \<^verbatim>\<open>insert\<close>, \<^verbatim>\<open>erase\<close>, \<^verbatim>\<open>clear\<close>, \<^verbatim>\<open>operator[]\<close>, and an assignment through
  the reference that \<^verbatim>\<open>operator[]\<close> or \<^verbatim>\<open>at\<close> has just returned.
\<close>

inductive reachable :: "('k::linorder, 'v) AvlMap \<Rightarrow> bool" where
  new: "reachable AvlMap_new"
| insert: "reachable m \<Longrightarrow> AvlMap_insert k v m = Some m' \<Longrightarrow> reachable m'"
| erase: "reachable m \<Longrightarrow> AvlMap_erase k m = Some m' \<Longrightarrow> reachable m'"
| clear: "reachable m \<Longrightarrow> reachable (AvlMap_clear m)"
| index: "reachable m \<Longrightarrow> AvlMap_index dflt k m = Some (ptr, m') \<Longrightarrow> reachable m'"
| assign: "reachable m \<Longrightarrow> AvlMap_index dflt k m = Some (ptr, m') \<Longrightarrow>
     write_ref ptr v m' = Some m'' \<Longrightarrow> reachable m''"
| assign_at: "reachable m \<Longrightarrow> search k (mroot m) = Some ptr \<Longrightarrow>
     write_ref ptr v m = Some m' \<Longrightarrow> reachable m'"

text \<open>The same notions for the set.\<close>

fun avl :: "'a tree \<Rightarrow> bool" where
  "avl Null = True"
| "avl (Node l r d h) =
     (\<bar>height l - height r\<bar> \<le> 1 \<and> h = 1 + max (height l) (height r) \<and> avl l \<and> avl r)"

fun ins_key :: "'a::linorder \<Rightarrow> 'a list \<Rightarrow> 'a list" where
  "ins_key x [] = [x]"
| "ins_key x (a # xs) =
     (if x < a then x # a # xs else if a < x then a # ins_key x xs else a # xs)"

inductive reachable_set :: "'a::linorder AvlTree \<Rightarrow> bool" where
  new: "reachable_set AvlTree_new"
| insert: "reachable_set c \<Longrightarrow> AvlTree_insert x c = Some c' \<Longrightarrow> reachable_set c'"
| remove: "reachable_set c \<Longrightarrow> AvlTree_remove x c = Some c' \<Longrightarrow> reachable_set c'"
| clear: "reachable_set c \<Longrightarrow> reachable_set (AvlTree_clear c)"

text \<open>A small map used as a concrete input: the keys 1 and 2.\<close>

definition map_with_1_2 :: "(int, int) AvlMap" where
  "map_with_1_2 = \<lparr>mroot = MNode (MNode MNull MNull 1 5 0) MNull 2 6 1, msz = 2\<rparr>"

section \<open>Evaluation of the operations on concrete containers\<close>

lemma search_loop_MNull: "search_loop x MNull p = None"
  by (subst search_loop.simps) simp

lemma search_loop_MNode:
  "search_loop x (MNode l r k v h) p =
     (if x < k then
        (if stops_at x l then Some (p @ [Left]) else search_loop x l (p @ [Left]))
      else if k < x then
        (if stops_at x r then Some (p @ [Right]) else search_loop x r (p @ [Right]))
      else search_loop x (MNode l r k v h) p)"
  by (subst search_loop.simps) simp

lemmas set_eval = AvlTree_of_range_def AvlTree_insert_def AvlTree_remove_def AvlTree_new_def
  AvlTree_clear_def AvlTree_empty_def AvlTree_size_def min_element_def max_element_def

lemmas map_eval = search_loop_MNull search_loop_MNode search_def AvlMap_index_def
  AvlMap_insert_def AvlMap_erase_def AvlMap_new_def AvlMap_clear_def AvlMap_empty_def
  AvlMap_size_def AvlMap_at_def AvlMap_of_range_def read_ref_def write_ref_def

section \<open>The shapes that rebalancing produces\<close>

lemma balance_left_single:
  assumes "lh - height r > 1" and "height ll \<ge> height lr"
  shows "balance (Node (Node ll lr ld lh) r d h) =
           Some (Node ll (Node lr r d (max (height lr) (height r) + 1)) ld
                   (max (height ll) (max (height lr) (height r) + 1) + 1))"
  using assms by (simp add: ALLOWED_IMBALANCE_def Let_def)

lemma balance_left_double:
  assumes "lh - height r > 1" and "height ll < lrh"
  shows "balance (Node (Node ll (Node lrl lrr lrd lrh) ld lh) r d h) =
           Some (Node (Node ll lrl ld (max (height ll) (height lrl) + 1))
                      (Node lrr r d (max (height lrr) (height r) + 1)) lrd
                   (max (max (height ll) (height lrl) + 1) (max (height lrr) (height r) + 1) + 1))"
  using assms by (simp add: ALLOWED_IMBALANCE_def Let_def)

lemma balance_right_single:
  assumes "rh - height l > 1" and "height rr \<ge> height rl"
  shows "balance (Node l (Node rl rr rd rh) d h) =
           Some (Node (Node l rl d (max (height l) (height rl) + 1)) rr rd
                   (max (max (height l) (height rl) + 1) (height rr) + 1))"
  using assms by (simp add: ALLOWED_IMBALANCE_def Let_def)

lemma balance_right_double:
  assumes "rh - height l > 1" and "height rr < rlh"
  shows "balance (Node l (Node (Node rll rlr rld rlh) rr rd rh) d h) =
           Some (Node (Node l rll d (max (height l) (height rll) + 1))
                      (Node rlr rr rd (max (height rlr) (height rr) + 1)) rld
                   (max (max (height l) (height rll) + 1) (max (height rlr) (height rr) + 1) + 1))"
  using assms by (simp add: ALLOWED_IMBALANCE_def Let_def)

lemma mbalance_left_single:
  assumes "lh - mheight r > 1" and "mheight ll \<ge> mheight lr"
  shows "mbalance (MNode (MNode ll lr lk lv lh) r k v h) =
           Some (MNode ll (MNode lr r k v (max (mheight lr) (mheight r) + 1)) lk lv
                   (max (mheight ll) (max (mheight lr) (mheight r) + 1) + 1))"
  using assms by (simp add: ALLOWED_IMBALANCE_def Let_def)

lemma mbalance_left_double:
  assumes "lh - mheight r > 1" and "mheight ll < lrh"
  shows "mbalance (MNode (MNode ll (MNode lrl lrr lrk lrv lrh) lk lv lh) r k v h) =
           Some (MNode (MNode ll lrl lk lv (max (mheight ll) (mheight lrl) + 1))
                      (MNode lrr r k v (max (mheight lrr) (mheight r) + 1)) lrk lrv
                   (max (max (mheight ll) (mheight lrl) + 1) (max (mheight lrr) (mheight r) + 1) + 1))"
  using assms by (simp add: ALLOWED_IMBALANCE_def Let_def)

lemma mbalance_right_single:
  assumes "rh - mheight l > 1" and "mheight rr \<ge> mheight rl"
  shows "mbalance (MNode l (MNode rl rr rk rv rh) k v h) =
           Some (MNode (MNode l rl k v (max (mheight l) (mheight rl) + 1)) rr rk rv
                   (max (max (mheight l) (mheight rl) + 1) (mheight rr) + 1))"
  using assms by (simp add: ALLOWED_IMBALANCE_def Let_def)

lemma mbalance_right_double:
  assumes "rh - mheight l > 1" and "mheight rr < rlh"
  shows "mbalance (MNode l (MNode (MNode rll rlr rlk rlv rlh) rr rk rv rh) k v h) =
           Some (MNode (MNode l rll k v (max (mheight l) (mheight rll) + 1))
                      (MNode rlr rr rk rv (max (mheight rlr) (mheight rr) + 1)) rlk rlv
                   (max (max (mheight l) (mheight rll) + 1) (max (mheight rlr) (mheight rr) + 1) + 1))"
  using assms by (simp add: ALLOWED_IMBALANCE_def Let_def)

section \<open>Properties of the map's tree operations\<close>

lemma mkeys_minorder: "mkeys t = fst ` set (minorder t)"
  by (induction t) auto

subsection \<open>Rotations keep the in-order sequence\<close>

lemma minorder_mrotateWithLeftChild:
  "mrotateWithLeftChild t = Some t' \<Longrightarrow> minorder t' = minorder t"
  by (induction t rule: mrotateWithLeftChild.induct) (auto simp: Let_def)

lemma minorder_mrotateWithRightChild:
  "mrotateWithRightChild t = Some t' \<Longrightarrow> minorder t' = minorder t"
  by (induction t rule: mrotateWithRightChild.induct) (auto simp: Let_def)

lemma minorder_mdoubleWithLeftChild:
  "mdoubleWithLeftChild t = Some t' \<Longrightarrow> minorder t' = minorder t"
  by (cases t)
    (auto simp: bind_eq_Some_conv
      dest!: minorder_mrotateWithLeftChild minorder_mrotateWithRightChild)

lemma minorder_mdoubleWithRightChild:
  "mdoubleWithRightChild t = Some t' \<Longrightarrow> minorder t' = minorder t"
  by (cases t)
    (auto simp: bind_eq_Some_conv
      dest!: minorder_mrotateWithLeftChild minorder_mrotateWithRightChild)

lemma minorder_mset_height: "mset_height t = Some t' \<Longrightarrow> minorder t' = minorder t"
  by (cases t) auto

lemma minorder_mbalance: "mbalance t = Some t' \<Longrightarrow> minorder t' = minorder t"
  by (cases t)
    (auto simp: bind_eq_Some_conv split: if_splits mtree.splits
      simp del: mrotateWithLeftChild.simps mrotateWithRightChild.simps
        mdoubleWithLeftChild.simps mdoubleWithRightChild.simps
      dest!: minorder_mrotateWithLeftChild minorder_mrotateWithRightChild
        minorder_mdoubleWithLeftChild minorder_mdoubleWithRightChild minorder_mset_height)

subsection \<open>No null pointer is dereferenced when the height fields are not negative\<close>

lemma mheight_ge: "mheights_nonneg t \<Longrightarrow> - 1 \<le> mheight t"
  by (cases t) auto

lemma mheight_MNull_iff: "mheights_nonneg t \<Longrightarrow> mheight t < 0 \<longleftrightarrow> t = MNull"
  by (cases t) auto

lemma max_succ_nonneg: "- 1 \<le> (a :: int) \<Longrightarrow> 0 \<le> max a b + 1"
  by simp

lemma mbalance_total:
  assumes "mheights_nonneg l" and "mheights_nonneg r"
  shows "\<exists>t'. mbalance (MNode l r k v h) = Some t' \<and> mheights_nonneg t' \<and> t' \<noteq> MNull"
proof -
  consider (left) "mheight l - mheight r > 1"
    | (right) "\<not> mheight l - mheight r > 1" "mheight r - mheight l > 1"
    | (none) "\<not> mheight l - mheight r > 1" "\<not> mheight r - mheight l > 1"
    by blast
  then show ?thesis
  proof cases
    case left
    with mheight_ge [OF assms(2)] have "0 < mheight l" by simp
    then obtain ll lr lk lv lh where l: "l = MNode ll lr lk lv lh"
      by (cases l) auto
    from assms(1) l have nn: "mheights_nonneg ll" "mheights_nonneg lr" by auto
    show ?thesis
    proof (cases "mheight ll \<ge> mheight lr")
      case True
      with left l nn assms(2) show ?thesis
        using mheight_ge [of ll] mheight_ge [of lr] mheight_ge [of r]
        by (simp add: ALLOWED_IMBALANCE_def Let_def max_succ_nonneg)
    next
      case False
      with mheight_ge [OF nn(1)] have "0 \<le> mheight lr" by simp
      then obtain lrl lrr lrk lrv lrh where lr: "lr = MNode lrl lrr lrk lrv lrh"
        by (cases lr) auto
      from nn(2) lr have nn2: "mheights_nonneg lrl" "mheights_nonneg lrr" by auto
      from False left l lr nn nn2 assms(2) show ?thesis
        using mheight_ge [of ll] mheight_ge [of lrl] mheight_ge [of lrr] mheight_ge [of r]
        by (simp add: ALLOWED_IMBALANCE_def Let_def max_succ_nonneg)
    qed
  next
    case right
    with mheight_ge [OF assms(1)] have "0 < mheight r" by simp
    then obtain rl rr rk rv rh where r: "r = MNode rl rr rk rv rh"
      by (cases r) auto
    from assms(2) r have nn: "mheights_nonneg rl" "mheights_nonneg rr" by auto
    show ?thesis
    proof (cases "mheight rr \<ge> mheight rl")
      case True
      with right r nn assms(1) show ?thesis
        using mheight_ge [of rl] mheight_ge [of rr] mheight_ge [of l]
        by (simp add: ALLOWED_IMBALANCE_def Let_def max_succ_nonneg)
    next
      case False
      with mheight_ge [OF nn(2)] have "0 \<le> mheight rl" by simp
      then obtain rll rlr rlk rlv rlh where rl: "rl = MNode rll rlr rlk rlv rlh"
        by (cases rl) auto
      from nn(1) rl have nn2: "mheights_nonneg rll" "mheights_nonneg rlr" by auto
      from False right r rl nn nn2 assms(1) show ?thesis
        using mheight_ge [of rr] mheight_ge [of rll] mheight_ge [of rlr] mheight_ge [of l]
        by (simp add: ALLOWED_IMBALANCE_def Let_def max_succ_nonneg)
    qed
  next
    case none
    with assms show ?thesis
      using mheight_ge [of l] mheight_ge [of r]
      by (simp add: ALLOWED_IMBALANCE_def)
  qed
qed

lemma minsert_util_total:
  "mheights_nonneg t \<Longrightarrow>
   \<exists>t'. minsert_util k v t = Some t' \<and> mheights_nonneg t' \<and> t' \<noteq> MNull"
proof (induction t)
  case MNull
  show ?case using mbalance_total [of MNull MNull k v 0] by simp
next
  case (MNode l r tk tv h)
  then have nn: "mheights_nonneg l" "mheights_nonneg r" by auto
  show ?case
  proof (cases "k < tk")
    case True
    from MNode.IH(1) [OF nn(1)] obtain l' where
      l': "minsert_util k v l = Some l'" "mheights_nonneg l'" by blast
    with True mbalance_total [OF l'(2) nn(2), of tk tv h] show ?thesis by simp
  next
    case False
    show ?thesis
    proof (cases "tk < k")
      case True
      from MNode.IH(2) [OF nn(2)] obtain r' where
        r': "minsert_util k v r = Some r'" "mheights_nonneg r'" by blast
      with True False mbalance_total [OF nn(1) r'(2), of tk tv h] show ?thesis by simp
    next
      case eq: False
      with False mbalance_total [OF nn, of tk tv h] show ?thesis by simp
    qed
  qed
qed

subsection \<open>Insertion and the in-order sequence\<close>

lemma set_ins_kv: "fst ` set (ins_kv k v xs) = insert k (fst ` set xs)"
  by (induction k v xs rule: ins_kv.induct) auto

lemma ksorted_ins_kv: "ksorted xs \<Longrightarrow> ksorted (ins_kv k v xs)"
proof (induction xs)
  case Nil
  show ?case by simp
next
  case (Cons p xs)
  obtain a b where p: "p = (a, b)" by (cases p)
  from Cons.prems p have tl: "ksorted xs" and hd: "\<forall>y \<in> fst ` set xs. a < y"
    by auto
  show ?case
  proof (cases "k < a")
    case True
    with Cons.prems p show ?thesis by auto
  next
    case False
    show ?thesis
    proof (cases "a < k")
      case True
      have "\<forall>y \<in> fst ` set (ins_kv k v xs). a < y"
        using hd True by (simp add: set_ins_kv)
      with True False p Cons.IH [OF tl] show ?thesis by simp
    next
      case eq: False
      with False p Cons.prems show ?thesis by simp
    qed
  qed
qed

lemma ins_kv_append:
  "ksorted (xs @ (a, b) # ys) \<Longrightarrow>
   ins_kv k v (xs @ (a, b) # ys) =
     (if k < a then ins_kv k v xs @ (a, b) # ys
      else if a < k then xs @ (a, b) # ins_kv k v ys
      else xs @ (a, b) # ys)"
proof (induction xs)
  case Nil
  show ?case by simp
next
  case (Cons p xs)
  obtain c d where p: "p = (c, d)" by (cases p)
  from Cons.prems p have ca: "c < a" and tl: "ksorted (xs @ (a, b) # ys)"
    by (auto simp: sorted_wrt_append)
  from Cons.IH [OF tl] ca p show ?case by auto
qed

lemma map_of_ins_kv:
  "ksorted xs \<Longrightarrow>
   map_of (ins_kv k v xs) k = Some (case map_of xs k of None \<Rightarrow> v | Some old \<Rightarrow> old)"
proof (induction xs)
  case Nil
  show ?case by simp
next
  case (Cons p xs)
  obtain a b where p: "p = (a, b)" by (cases p)
  from Cons.prems p have tl: "ksorted xs" and hd: "\<forall>y \<in> fst ` set xs. a < y"
    by auto
  show ?case
  proof (cases "k < a")
    case True
    then have "k \<notin> fst ` set xs" using hd by auto
    then have "map_of xs k = None" by (simp add: map_of_eq_None_iff)
    with True p show ?thesis by auto
  next
    case False
    with p Cons.IH [OF tl] show ?thesis by auto
  qed
qed

lemma minorder_minsert_util:
  "mbst t \<Longrightarrow> minsert_util k v t = Some t' \<Longrightarrow> minorder t' = ins_kv k v (minorder t)"
proof (induction t arbitrary: t')
  case MNull
  then show ?case by (auto simp: ALLOWED_IMBALANCE_def)
next
  case (MNode l r tk tv h)
  from MNode.prems(1) have sl: "mbst l" and sr: "mbst r"
    by (auto simp: mbst_def sorted_wrt_append)
  from MNode.prems(1) have so: "ksorted (minorder l @ (tk, tv) # minorder r)"
    by (simp add: mbst_def)
  show ?case
  proof (cases "k < tk")
    case True
    with MNode.prems(2) obtain l' where
      l': "minsert_util k v l = Some l'" "mbalance (MNode l' r tk tv h) = Some t'"
      by (auto simp: bind_eq_Some_conv)
    from minorder_mbalance [OF l'(2)] MNode.IH(1) [OF sl l'(1)] True
    show ?thesis by (simp add: ins_kv_append [OF so])
  next
    case False
    show ?thesis
    proof (cases "tk < k")
      case True
      with False MNode.prems(2) obtain r' where
        r': "minsert_util k v r = Some r'" "mbalance (MNode l r' tk tv h) = Some t'"
        by (auto simp: bind_eq_Some_conv)
      from minorder_mbalance [OF r'(2)] MNode.IH(2) [OF sr r'(1)] True False
      show ?thesis by (simp add: ins_kv_append [OF so])
    next
      case eq: False
      with False MNode.prems(2) have "mbalance (MNode l r tk tv h) = Some t'" by simp
      from minorder_mbalance [OF this] False eq
      show ?thesis by (simp add: ins_kv_append [OF so])
    qed
  qed
qed

lemma mbst_minsert_util: "mbst t \<Longrightarrow> minsert_util k v t = Some t' \<Longrightarrow> mbst t'"
  using ksorted_ins_kv [of "minorder t" k v] minorder_minsert_util [of t k v t']
  by (simp add: mbst_def)

subsection \<open>Searching\<close>

lemma stops_at_absent: "k \<notin> mkeys t \<Longrightarrow> stops_at k t \<longleftrightarrow> t = MNull"
  by (cases t) auto

text \<open>Searching an absent key ends at an empty slot; with a node for the key stored
  there, the same search ends at the same slot.\<close>

lemma search_loop_absent:
  assumes "k \<notin> mkeys t" and "t \<noteq> MNull" and "stops_at k n"
  shows "\<exists>q t' xs ys.
           search_loop k t p = Some (p @ q) \<and> q \<noteq> [] \<and>
           slot_get q t = Some MNull \<and>
           slot_set q n t = Some t' \<and>
           slot_get q t' = Some n \<and>
           search_loop k t' p = Some (p @ q) \<and>
           \<not> stops_at k t' \<and>
           minorder t = xs @ ys \<and> minorder t' = xs @ minorder n @ ys \<and>
           mcount_nodes t' = mcount_nodes t + mcount_nodes n"
  using assms(1,2)
proof (induction t arbitrary: p)
  case MNull
  then show ?case by simp
next
  case (MNode l r tk tv h)
  from MNode.prems have ne: "k \<noteq> tk" and kl: "k \<notin> mkeys l" and kr: "k \<notin> mkeys r"
    by auto
  show ?case
  proof (cases "k < tk")
    case True
    show ?thesis
    proof (cases "l = MNull")
      case lnull: True
      have "search_loop k (MNode l r tk tv h) p = Some (p @ [Left])"
        using True lnull by (simp add: search_loop_MNode)
      moreover have "search_loop k (MNode n r tk tv h) p = Some (p @ [Left])"
        using True assms(3) by (simp add: search_loop_MNode)
      moreover have "minorder (MNode l r tk tv h) = [] @ ((tk, tv) # minorder r)"
        using lnull by simp
      moreover have "minorder (MNode n r tk tv h) = [] @ minorder n @ ((tk, tv) # minorder r)"
        by simp
      ultimately have
        "search_loop k (MNode l r tk tv h) p = Some (p @ ([Left])) \<and> ([Left]) \<noteq> [] \<and>
         slot_get ([Left]) (MNode l r tk tv h) = Some MNull \<and>
         slot_set ([Left]) n (MNode l r tk tv h) = Some (MNode n r tk tv h) \<and>
         slot_get ([Left]) (MNode n r tk tv h) = Some n \<and>
         search_loop k (MNode n r tk tv h) p = Some (p @ ([Left])) \<and>
         \<not> stops_at k (MNode n r tk tv h) \<and>
         minorder (MNode l r tk tv h) = ([]) @ ((tk, tv) # minorder r) \<and>
         minorder (MNode n r tk tv h) = ([]) @ minorder n @ ((tk, tv) # minorder r) \<and>
         mcount_nodes (MNode n r tk tv h) = mcount_nodes (MNode l r tk tv h) + mcount_nodes n"
        using lnull ne by simp
      then show ?thesis by blast
    next
      case lnode: False
      from MNode.IH(1) [OF kl lnode, of "p @ [Left]"]
      obtain q l' xs ys where
        q: "search_loop k l (p @ [Left]) = Some ((p @ [Left]) @ q)" "q \<noteq> []"
           "slot_get q l = Some MNull" "slot_set q n l = Some l'" "slot_get q l' = Some n"
           "search_loop k l' (p @ [Left]) = Some ((p @ [Left]) @ q)" "\<not> stops_at k l'"
           "minorder l = xs @ ys" "minorder l' = xs @ minorder n @ ys"
           "mcount_nodes l' = mcount_nodes l + mcount_nodes n"
        by blast
      have nl: "\<not> stops_at k l" using kl lnode by (simp add: stops_at_absent)
      have "search_loop k (MNode l r tk tv h) p = Some (p @ Left # q)"
        using True nl q(1) by (simp add: search_loop_MNode)
      moreover have "search_loop k (MNode l' r tk tv h) p = Some (p @ Left # q)"
        using True q(6,7) by (simp add: search_loop_MNode)
      moreover have "minorder (MNode l r tk tv h) = xs @ (ys @ (tk, tv) # minorder r)"
        using q(8) by simp
      moreover have "minorder (MNode l' r tk tv h) = xs @ minorder n @ (ys @ (tk, tv) # minorder r)"
        using q(9) by simp
      ultimately have
        "search_loop k (MNode l r tk tv h) p = Some (p @ (Left # q)) \<and> (Left # q) \<noteq> [] \<and>
         slot_get (Left # q) (MNode l r tk tv h) = Some MNull \<and>
         slot_set (Left # q) n (MNode l r tk tv h) = Some (MNode l' r tk tv h) \<and>
         slot_get (Left # q) (MNode l' r tk tv h) = Some n \<and>
         search_loop k (MNode l' r tk tv h) p = Some (p @ (Left # q)) \<and>
         \<not> stops_at k (MNode l' r tk tv h) \<and>
         minorder (MNode l r tk tv h) = (xs) @ (ys @ (tk, tv) # minorder r) \<and>
         minorder (MNode l' r tk tv h) = (xs) @ minorder n @ (ys @ (tk, tv) # minorder r) \<and>
         mcount_nodes (MNode l' r tk tv h) = mcount_nodes (MNode l r tk tv h) + mcount_nodes n"
        using q(3,4,5,10) ne by simp
      then show ?thesis by blast
    qed
  next
    case False
    with ne have gt: "tk < k" by simp
    show ?thesis
    proof (cases "r = MNull")
      case rnull: True
      have "search_loop k (MNode l r tk tv h) p = Some (p @ [Right])"
        using False gt rnull by (simp add: search_loop_MNode)
      moreover have "search_loop k (MNode l n tk tv h) p = Some (p @ [Right])"
        using False gt assms(3) by (simp add: search_loop_MNode)
      moreover have "minorder (MNode l r tk tv h) = (minorder l @ [(tk, tv)]) @ []"
        using rnull by simp
      moreover have "minorder (MNode l n tk tv h) = (minorder l @ [(tk, tv)]) @ minorder n @ []"
        by simp
      ultimately have
        "search_loop k (MNode l r tk tv h) p = Some (p @ ([Right])) \<and> ([Right]) \<noteq> [] \<and>
         slot_get ([Right]) (MNode l r tk tv h) = Some MNull \<and>
         slot_set ([Right]) n (MNode l r tk tv h) = Some (MNode l n tk tv h) \<and>
         slot_get ([Right]) (MNode l n tk tv h) = Some n \<and>
         search_loop k (MNode l n tk tv h) p = Some (p @ ([Right])) \<and>
         \<not> stops_at k (MNode l n tk tv h) \<and>
         minorder (MNode l r tk tv h) = (minorder l @ [(tk, tv)]) @ ([]) \<and>
         minorder (MNode l n tk tv h) = (minorder l @ [(tk, tv)]) @ minorder n @ ([]) \<and>
         mcount_nodes (MNode l n tk tv h) = mcount_nodes (MNode l r tk tv h) + mcount_nodes n"
        using rnull ne by simp
      then show ?thesis by blast
    next
      case rnode: False
      from MNode.IH(2) [OF kr rnode, of "p @ [Right]"]
      obtain q r' xs ys where
        q: "search_loop k r (p @ [Right]) = Some ((p @ [Right]) @ q)" "q \<noteq> []"
           "slot_get q r = Some MNull" "slot_set q n r = Some r'" "slot_get q r' = Some n"
           "search_loop k r' (p @ [Right]) = Some ((p @ [Right]) @ q)" "\<not> stops_at k r'"
           "minorder r = xs @ ys" "minorder r' = xs @ minorder n @ ys"
           "mcount_nodes r' = mcount_nodes r + mcount_nodes n"
        by blast
      have nr: "\<not> stops_at k r" using kr rnode by (simp add: stops_at_absent)
      have "search_loop k (MNode l r tk tv h) p = Some (p @ Right # q)"
        using False gt nr q(1) by (simp add: search_loop_MNode)
      moreover have "search_loop k (MNode l r' tk tv h) p = Some (p @ Right # q)"
        using False gt q(6,7) by (simp add: search_loop_MNode)
      moreover have "minorder (MNode l r tk tv h) = (minorder l @ (tk, tv) # xs) @ ys"
        using q(8) by simp
      moreover have "minorder (MNode l r' tk tv h) = (minorder l @ (tk, tv) # xs) @ minorder n @ ys"
        using q(9) by simp
      ultimately have
        "search_loop k (MNode l r tk tv h) p = Some (p @ (Right # q)) \<and> (Right # q) \<noteq> [] \<and>
         slot_get (Right # q) (MNode l r tk tv h) = Some MNull \<and>
         slot_set (Right # q) n (MNode l r tk tv h) = Some (MNode l r' tk tv h) \<and>
         slot_get (Right # q) (MNode l r' tk tv h) = Some n \<and>
         search_loop k (MNode l r' tk tv h) p = Some (p @ (Right # q)) \<and>
         \<not> stops_at k (MNode l r' tk tv h) \<and>
         minorder (MNode l r tk tv h) = (minorder l @ (tk, tv) # xs) @ (ys) \<and>
         minorder (MNode l r' tk tv h) = (minorder l @ (tk, tv) # xs) @ minorder n @ (ys) \<and>
         mcount_nodes (MNode l r' tk tv h) = mcount_nodes (MNode l r tk tv h) + mcount_nodes n"
        using q(3,4,5,10) ne by simp
      then show ?thesis by blast
    qed
  qed
qed

text \<open>The loop of \<^verbatim>\<open>search\<close> ends on every tree: the node it looks at never holds the key.\<close>

lemma search_loop_returns:
  "\<not> stops_at k t \<Longrightarrow> \<exists>q s. search_loop k t p = Some (p @ q) \<and> slot_get q t = Some s \<and> stops_at k s"
proof (induction t arbitrary: p)
  case MNull
  then show ?case by simp
next
  case (MNode l r tk tv h)
  then have ne: "tk \<noteq> k" by simp
  show ?case
  proof (cases "k < tk")
    case True
    show ?thesis
    proof (cases "stops_at k l")
      case stop: True
      have "search_loop k (MNode l r tk tv h) p = Some (p @ [Left])"
        using True stop by (simp add: search_loop_MNode)
      moreover have "slot_get [Left] (MNode l r tk tv h) = Some l" by simp
      ultimately show ?thesis using stop by blast
    next
      case go: False
      from MNode.IH(1) [OF go, of "p @ [Left]"] obtain q s where
        q: "search_loop k l (p @ [Left]) = Some ((p @ [Left]) @ q)" "slot_get q l = Some s"
           "stops_at k s"
        by blast
      have "search_loop k (MNode l r tk tv h) p = Some (p @ Left # q)"
        using True go q(1) by (simp add: search_loop_MNode)
      moreover have "slot_get (Left # q) (MNode l r tk tv h) = Some s"
        using q(2) by simp
      ultimately show ?thesis using q(3) by blast
    qed
  next
    case False
    with ne have gt: "tk < k" by simp
    show ?thesis
    proof (cases "stops_at k r")
      case stop: True
      have "search_loop k (MNode l r tk tv h) p = Some (p @ [Right])"
        using False gt stop by (simp add: search_loop_MNode)
      moreover have "slot_get [Right] (MNode l r tk tv h) = Some r" by simp
      ultimately show ?thesis using stop by blast
    next
      case go: False
      from MNode.IH(2) [OF go, of "p @ [Right]"] obtain q s where
        q: "search_loop k r (p @ [Right]) = Some ((p @ [Right]) @ q)" "slot_get q r = Some s"
           "stops_at k s"
        by blast
      have "search_loop k (MNode l r tk tv h) p = Some (p @ Right # q)"
        using False gt go q(1) by (simp add: search_loop_MNode)
      moreover have "slot_get (Right # q) (MNode l r tk tv h) = Some s"
        using q(2) by simp
      ultimately show ?thesis using q(3) by blast
    qed
  qed
qed

lemma search_returns: "\<exists>q s. search k t = Some q \<and> slot_get q t = Some s \<and> stops_at k s"
proof (cases "stops_at k t")
  case True
  then show ?thesis by (simp add: search_def)
next
  case False
  from search_loop_returns [OF False, of "[]"] False show ?thesis
    by (simp add: search_def)
qed

lemma value_of_stops_at:
  assumes "mbst s" and "stops_at k s"
  shows "value_of s = map_of (minorder s) k"
proof (cases s)
  case MNull
  then show ?thesis by simp
next
  case (MNode l r sk sv h)
  with assms(2) have sk: "sk = k" by simp
  from assms(1) MNode sk have "k \<notin> fst ` set (minorder l)"
    by (auto simp: mbst_def sorted_wrt_append)
  then have "map_of (minorder l) k = None" by (simp add: map_of_eq_None_iff)
  with MNode sk show ?thesis by (simp add: map_add_def)
qed

lemma search_loop_bst:
  assumes "mbst t" and "\<not> stops_at k t"
  shows "\<exists>q s. search_loop k t p = Some (p @ q) \<and> slot_get q t = Some s \<and>
           stops_at k s \<and> value_of s = map_of (minorder t) k"
  using assms
proof (induction t arbitrary: p)
  case MNull
  then show ?case by simp
next
  case (MNode l r tk tv h)
  from MNode.prems(1) have sl: "mbst l" and sr: "mbst r"
    and lt: "\<forall>x \<in> fst ` set (minorder l). x < tk"
    and gt: "\<forall>x \<in> fst ` set (minorder r). tk < x"
    by (auto simp: mbst_def sorted_wrt_append)
  from MNode.prems(2) have ne: "tk \<noteq> k" by simp
  show ?case
  proof (cases "k < tk")
    case True
    then have "k \<notin> fst ` set (minorder r)" using gt by auto
    then have "map_of (minorder r) k = None" by (simp add: map_of_eq_None_iff)
    with ne have m: "map_of (minorder (MNode l r tk tv h)) k = map_of (minorder l) k"
      by (simp add: map_add_def split: option.splits)
    show ?thesis
    proof (cases "stops_at k l")
      case stop: True
      have "search_loop k (MNode l r tk tv h) p = Some (p @ [Left])"
        using True stop by (simp add: search_loop_MNode)
      moreover have "slot_get [Left] (MNode l r tk tv h) = Some l" by simp
      ultimately show ?thesis
        using stop m value_of_stops_at [OF sl stop] by metis
    next
      case go: False
      from MNode.IH(1) [OF sl go, of "p @ [Left]"] obtain q s where
        q: "search_loop k l (p @ [Left]) = Some ((p @ [Left]) @ q)" "slot_get q l = Some s"
           "stops_at k s" "value_of s = map_of (minorder l) k"
        by blast
      have "search_loop k (MNode l r tk tv h) p = Some (p @ Left # q)"
        using True go q(1) by (simp add: search_loop_MNode)
      moreover have "slot_get (Left # q) (MNode l r tk tv h) = Some s"
        using q(2) by simp
      ultimately show ?thesis
        using q(3,4) m by metis
    qed
  next
    case False
    with ne have kgt: "tk < k" by simp
    then have "k \<notin> fst ` set (minorder l)" using lt by auto
    then have "map_of (minorder l) k = None" by (simp add: map_of_eq_None_iff)
    with ne have m: "map_of (minorder (MNode l r tk tv h)) k = map_of (minorder r) k"
      by (simp add: map_add_def split: option.splits)
    show ?thesis
    proof (cases "stops_at k r")
      case stop: True
      have "search_loop k (MNode l r tk tv h) p = Some (p @ [Right])"
        using False kgt stop by (simp add: search_loop_MNode)
      moreover have "slot_get [Right] (MNode l r tk tv h) = Some r" by simp
      ultimately show ?thesis
        using stop m value_of_stops_at [OF sr stop] by metis
    next
      case go: False
      from MNode.IH(2) [OF sr go, of "p @ [Right]"] obtain q s where
        q: "search_loop k r (p @ [Right]) = Some ((p @ [Right]) @ q)" "slot_get q r = Some s"
           "stops_at k s" "value_of s = map_of (minorder r) k"
        by blast
      have "search_loop k (MNode l r tk tv h) p = Some (p @ Right # q)"
        using False kgt go q(1) by (simp add: search_loop_MNode)
      moreover have "slot_get (Right # q) (MNode l r tk tv h) = Some s"
        using q(2) by simp
      ultimately show ?thesis
        using q(3,4) m by metis
    qed
  qed
qed

text \<open>On a search tree \<^verbatim>\<open>at\<close> reads the association list of the in-order sequence.\<close>

lemma AvlMap_at_bst:
  assumes "mbst (mroot m)"
  shows "AvlMap_at k m =
           Some (case map_of (minorder (mroot m)) k of None \<Rightarrow> Inl NotFound | Some v \<Rightarrow> Inr v)"
proof -
  have "\<exists>q s. search k (mroot m) = Some q \<and> slot_get q (mroot m) = Some s \<and>
          value_of s = map_of (minorder (mroot m)) k"
  proof (cases "stops_at k (mroot m)")
    case True
    then show ?thesis
      using value_of_stops_at [OF assms True] by (simp add: search_def)
  next
    case False
    from search_loop_bst [OF assms False, of "[]"] False show ?thesis
      by (auto simp: search_def)
  qed
  then obtain q s where "search k (mroot m) = Some q" "slot_get q (mroot m) = Some s"
    "map_of (minorder (mroot m)) k = value_of s" by metis
  then show ?thesis
    by (cases s) (auto simp: AvlMap_at_def)
qed

subsection \<open>Removal\<close>

lemma mbalance_total_any:
  "mheights_nonneg t \<Longrightarrow> \<exists>t'. mbalance t = Some t' \<and> mheights_nonneg t'"
proof (cases t)
  case MNull
  then show ?thesis by simp
next
  case (MNode l r k v h)
  assume "mheights_nonneg t"
  with MNode have "mheights_nonneg l" "mheights_nonneg r" by auto
  from mbalance_total [OF this, of k v h] MNode show ?thesis by blast
qed

lemma mfindMin_key:
  "t \<noteq> MNull \<Longrightarrow> key_of (mfindMin t) = Some (hd (map fst (minorder t)))"
  by (induction t rule: mfindMin.induct) (auto simp: hd_append)

lemma mremove_util_total:
  "mheights_nonneg t \<Longrightarrow> \<exists>t'. mremove_util x t = Some t' \<and> mheights_nonneg t'"
proof (induction t arbitrary: x)
  case MNull
  show ?case by simp
next
  case (MNode l r k v h)
  then have nn: "mheights_nonneg l" "mheights_nonneg r" by auto
  consider (lt) "x < k" | (gt) "\<not> x < k" "k < x"
    | (two) "\<not> x < k" "\<not> k < x" "l \<noteq> MNull \<and> r \<noteq> MNull"
    | (one) "\<not> x < k" "\<not> k < x" "\<not> (l \<noteq> MNull \<and> r \<noteq> MNull)"
    by blast
  then show ?case
  proof cases
    case lt
    from MNode.IH(1) [OF nn(1), of x] obtain l' where
      l': "mremove_util x l = Some l'" "mheights_nonneg l'" by blast
    with lt mbalance_total [OF l'(2) nn(2), of k v h] show ?thesis by auto
  next
    case gt
    from MNode.IH(2) [OF nn(2), of x] obtain r' where
      r': "mremove_util x r = Some r'" "mheights_nonneg r'" by blast
    with gt mbalance_total [OF nn(1) r'(2), of k v h] show ?thesis by auto
  next
    case two
    then have "r \<noteq> MNull" by simp
    from mfindMin_key [OF this] obtain m where m: "key_of (mfindMin r) = Some m" by blast
    from MNode.IH(2) [OF nn(2), of m] obtain r' where
      r': "mremove_util m r = Some r'" "mheights_nonneg r'" by blast
    with two m mbalance_total [OF nn(1) r'(2), of m v h] show ?thesis by auto
  next
    case one
    have "mheights_nonneg (if l \<noteq> MNull then l else r)" using nn by simp
    from mbalance_total_any [OF this] one show ?thesis by auto
  qed
qed

lemma mkeys_list_mbalance: "mbalance t = Some t' \<Longrightarrow> mkeys_list t' = mkeys_list t"
  by (simp add: minorder_mbalance)

lemma sorted_hd_removeAll:
  "sorted_wrt (<) (xs :: 'a::linorder list) \<Longrightarrow> xs \<noteq> [] \<Longrightarrow> hd xs # removeAll (hd xs) xs = xs"
  by (cases xs) (auto simp: removeAll_id)

lemma mkeys_list_mremove_util:
  "mbst t \<Longrightarrow> mremove_util x t = Some t' \<Longrightarrow> mkeys_list t' = removeAll x (mkeys_list t)"
proof (induction t arbitrary: x t')
  case MNull
  then show ?case by simp
next
  case (MNode l r k v h)
  from MNode.prems(1) have sl: "mbst l" and sr: "mbst r"
    and lt: "\<forall>a \<in> set (mkeys_list l). a < k"
    and gt: "\<forall>a \<in> set (mkeys_list r). k < a"
    by (auto simp: mbst_def sorted_wrt_append)
  consider (lt) "x < k" | (gt) "\<not> x < k" "k < x"
    | (two) "\<not> x < k" "\<not> k < x" "l \<noteq> MNull \<and> r \<noteq> MNull"
    | (one) "\<not> x < k" "\<not> k < x" "\<not> (l \<noteq> MNull \<and> r \<noteq> MNull)"
    by blast
  then show ?case
  proof cases
    case lt
    with MNode.prems(2) obtain l' where
      l': "mremove_util x l = Some l'" "mbalance (MNode l' r k v h) = Some t'"
      by (auto simp: bind_eq_Some_conv)
    from lt gt have "x \<notin> set (mkeys_list r)" by auto
    with lt mkeys_list_mbalance [OF l'(2)] MNode.IH(1) [OF sl l'(1)]
    show ?thesis by (simp add: removeAll_id)
  next
    case gt
    with MNode.prems(2) obtain r' where
      r': "mremove_util x r = Some r'" "mbalance (MNode l r' k v h) = Some t'"
      by (auto simp: bind_eq_Some_conv)
    from gt lt have "x \<notin> set (mkeys_list l)" by auto
    with gt mkeys_list_mbalance [OF r'(2)] MNode.IH(2) [OF sr r'(1)]
    show ?thesis by (simp add: removeAll_id)
  next
    case two
    then have xk: "x = k" and rn: "r \<noteq> MNull" by auto
    define m where "m = hd (mkeys_list r)"
    have km: "key_of (mfindMin r) = Some m"
      using mfindMin_key [OF rn] by (simp add: m_def)
    from two km MNode.prems(2) obtain r' where
      r': "mremove_util m r = Some r'" "mbalance (MNode l r' m v h) = Some t'"
      by (auto simp: bind_eq_Some_conv)
    have rne: "mkeys_list r \<noteq> []" using rn by (cases r) auto
    have "m # mkeys_list r' = mkeys_list r"
      using MNode.IH(2) [OF sr r'(1)] sorted_hd_removeAll [of "mkeys_list r"] sr rne
      by (simp add: m_def mbst_def)
    then have "mkeys_list t' = mkeys_list l @ mkeys_list r"
      using mkeys_list_mbalance [OF r'(2)] by simp
    moreover have "x \<notin> set (mkeys_list l)" "x \<notin> set (mkeys_list r)"
      using xk lt gt by auto
    ultimately show ?thesis using xk by (simp add: removeAll_id)
  next
    case one
    then have xk: "x = k" by auto
    from one MNode.prems(2) have b: "mbalance (if l \<noteq> MNull then l else r) = Some t'"
      by (auto split: if_splits)
    have nl: "x \<notin> set (mkeys_list l)" "x \<notin> set (mkeys_list r)"
      using xk lt gt by auto
    from one have "mkeys_list (if l \<noteq> MNull then l else r) = mkeys_list l @ mkeys_list r"
      by (cases "l = MNull") auto
    with mkeys_list_mbalance [OF b] nl xk show ?thesis by (simp add: removeAll_id)
  qed
qed

lemma sorted_wrt_removeAll: "sorted_wrt P xs \<Longrightarrow> sorted_wrt P (removeAll x xs)"
  by (induction xs) auto

lemma mbst_mremove_util: "mbst t \<Longrightarrow> mremove_util x t = Some t' \<Longrightarrow> mbst t'"
  using mkeys_list_mremove_util [of t x t']
  by (simp add: mbst_def sorted_wrt_removeAll)

subsection \<open>Access through a slot\<close>

lemma mheights_nonneg_slot_set:
  "mheights_nonneg t \<Longrightarrow> mheights_nonneg n \<Longrightarrow> slot_set q n t = Some t' \<Longrightarrow>
   mheights_nonneg t'"
  by (induction q n t arbitrary: t' rule: slot_set.induct)
    (auto simp: bind_eq_Some_conv)

text \<open>A leaf stored in the slot that the search for an absent key ends at goes to its
  place in the key order.\<close>

lemma search_loop_absent_sorted:
  assumes "mbst t" and "k \<notin> mkeys t" and "t \<noteq> MNull"
    and "search_loop k t p = Some (p @ q)" and "slot_set q (MNode MNull MNull k v 0) t = Some t'"
  shows "minorder t' = ins_kv k v (minorder t)"
  using assms
proof (induction t arbitrary: p q t')
  case MNull
  then show ?case by simp
next
  case (MNode l r tk tv h)
  from MNode.prems(1) have sl: "mbst l" and sr: "mbst r"
    by (auto simp: mbst_def sorted_wrt_append)
  from MNode.prems(1) have so: "ksorted (minorder l @ (tk, tv) # minorder r)"
    by (simp add: mbst_def)
  from MNode.prems(2) have ne: "k \<noteq> tk" and kl: "k \<notin> mkeys l" and kr: "k \<notin> mkeys r"
    by auto
  show ?case
  proof (cases "k < tk")
    case True
    show ?thesis
    proof (cases "l = MNull")
      case lnull: True
      with True MNode.prems(4) have "q = [Left]"
        by (simp add: search_loop_MNode)
      with MNode.prems(5) lnull True show ?thesis
        by (auto simp: ins_kv_append [OF so])
    next
      case lnode: False
      then have nl: "\<not> stops_at k l" using kl by (simp add: stops_at_absent)
      from search_loop_absent [OF kl lnode, of "MNode MNull MNull k v 0" "p @ [Left]"]
      obtain q' where q': "search_loop k l (p @ [Left]) = Some ((p @ [Left]) @ q')"
        by auto
      with True nl MNode.prems(4) have q: "q = Left # q'"
        by (simp add: search_loop_MNode)
      with MNode.prems(5) obtain l' where
        l': "slot_set q' (MNode MNull MNull k v 0) l = Some l'" "t' = MNode l' r tk tv h"
        by (auto simp: bind_eq_Some_conv)
      from MNode.IH(1) [OF sl kl lnode q' l'(1)] l'(2) True show ?thesis
        by (simp add: ins_kv_append [OF so])
    qed
  next
    case False
    with ne have gt: "tk < k" by simp
    show ?thesis
    proof (cases "r = MNull")
      case rnull: True
      with False gt MNode.prems(4) have "q = [Right]"
        by (simp add: search_loop_MNode)
      moreover from so rnull have "ksorted (minorder l @ [(tk, tv)])" by simp
      note ins_kv_append [OF this, of k v]
      ultimately show ?thesis
        using MNode.prems(5) rnull False gt by auto
    next
      case rnode: False
      then have nr: "\<not> stops_at k r" using kr by (simp add: stops_at_absent)
      from search_loop_absent [OF kr rnode, of "MNode MNull MNull k v 0" "p @ [Right]"]
      obtain q' where q': "search_loop k r (p @ [Right]) = Some ((p @ [Right]) @ q')"
        by auto
      with False gt nr MNode.prems(4) have q: "q = Right # q'"
        by (simp add: search_loop_MNode)
      with MNode.prems(5) obtain r' where
        r': "slot_set q' (MNode MNull MNull k v 0) r = Some r'" "t' = MNode l r' tk tv h"
        by (auto simp: bind_eq_Some_conv)
      from MNode.IH(2) [OF sr kr rnode q' r'(1)] r'(2) False gt show ?thesis
        by (simp add: ins_kv_append [OF so])
    qed
  qed
qed

text \<open>\<^verbatim>\<open>operator[]\<close> keeps the key order and leaves no negative height field.\<close>

lemma AvlMap_index_invariants:
  assumes "mbst (mroot m)" and "mheights_nonneg (mroot m)"
    and "AvlMap_index dflt k m = Some (ptr, m')"
  shows "mbst (mroot m') \<and> mheights_nonneg (mroot m')"
proof -
  from assms(3) obtain t where
    p: "search k (mroot m) = Some ptr" and t: "slot_get ptr (mroot m) = Some t"
    by (auto simp: AvlMap_index_def bind_eq_Some_conv split: if_splits)
  show ?thesis
  proof (cases "t = MNull")
    case False
    with assms(3) p t have "m' = m"
      by (auto simp: AvlMap_index_def bind_eq_Some_conv)
    with assms(1,2) show ?thesis by simp
  next
    case True
    define n where "n = MNode MNull MNull k dflt 0"
    from True assms(3) p t obtain root' where
      r: "slot_set ptr n (mroot m) = Some root'" and m': "mroot m' = root'"
      by (auto simp: AvlMap_index_def bind_eq_Some_conv ALLOWED_IMBALANCE_def n_def)
    have nn: "mheights_nonneg root'"
      using mheights_nonneg_slot_set [OF assms(2) _ r] by (simp add: n_def)
    have absent: "k \<notin> mkeys (mroot m)"
    proof (cases "stops_at k (mroot m)")
      case stop: True
      with p have "ptr = []" by (simp add: search_def)
      with t True show ?thesis by simp
    next
      case go: False
      from search_loop_bst [OF assms(1) go, of "[]"] obtain q s where
        q: "search_loop k (mroot m) [] = Some q" "slot_get q (mroot m) = Some s"
           "value_of s = map_of (minorder (mroot m)) k"
        by auto
      with go p have "q = ptr" by (simp add: search_def)
      with q t True have "map_of (minorder (mroot m)) k = None" by simp
      then show ?thesis by (simp add: map_of_eq_None_iff mkeys_minorder)
    qed
    have "minorder root' = ins_kv k dflt (minorder (mroot m))"
    proof (cases "mroot m = MNull")
      case empty: True
      with p have "ptr = []" by (simp add: search_def)
      with r empty show ?thesis by (auto simp: n_def)
    next
      case nonempty: False
      then have "\<not> stops_at k (mroot m)" using absent by (simp add: stops_at_absent)
      with p have "search_loop k (mroot m) [] = Some ([] @ ptr)" by (simp add: search_def)
      from search_loop_absent_sorted [OF assms(1) absent nonempty this] r
      show ?thesis by (simp add: n_def)
    qed
    then have "mbst root'"
      using ksorted_ins_kv [of "minorder (mroot m)" k dflt] assms(1) by (simp add: mbst_def)
    with nn m' show ?thesis by simp
  qed
qed

lemma slot_set_value:
  "slot_get q t = Some (MNode l r k old h) \<Longrightarrow> slot_set q (MNode l r k v h) t = Some t' \<Longrightarrow>
   map fst (minorder t') = map fst (minorder t) \<and> (mheights_nonneg t \<longrightarrow> mheights_nonneg t')"
proof (induction q t arbitrary: t' rule: slot_get.induct)
  case (1 t)
  then show ?case by auto
next
  case (2 d p)
  then show ?case by simp
next
  case (3 p l' r' k' v' h')
  then show ?case by (auto simp: bind_eq_Some_conv)
next
  case (4 p l' r' k' v' h')
  then show ?case by (auto simp: bind_eq_Some_conv)
qed

lemma write_ref_invariants:
  assumes "mbst (mroot m)" and "mheights_nonneg (mroot m)" and "write_ref ptr v m = Some m'"
  shows "mbst (mroot m') \<and> mheights_nonneg (mroot m')"
proof -
  from assms(3) obtain n where n: "slot_get ptr (mroot m) = Some n"
    by (auto simp: write_ref_def bind_eq_Some_conv)
  show ?thesis
  proof (cases n)
    case MNull
    with assms(3) n show ?thesis by (simp add: write_ref_def)
  next
    case (MNode l r k old h)
    with assms(3) n obtain root' where
      "slot_set ptr (MNode l r k v h) (mroot m) = Some root'" "mroot m' = root'"
      by (auto simp: write_ref_def bind_eq_Some_conv)
    with slot_set_value [of ptr "mroot m" l r k old h v root'] n MNode assms(1,2)
    show ?thesis by (simp add: mbst_def)
  qed
qed

subsection \<open>Every reachable map is a search tree with non-negative height fields\<close>

lemma reachable_invariants:
  "reachable m \<Longrightarrow> mbst (mroot m) \<and> mheights_nonneg (mroot m)"
proof (induction rule: reachable.induct)
  case new
  show ?case by (simp add: AvlMap_new_def mbst_def)
next
  case (insert m k v m')
  then obtain t' where t': "minsert_util k v (mroot m) = Some t'" "mroot m' = t'"
    by (auto simp: AvlMap_insert_def bind_eq_Some_conv)
  from insert.IH t' mbst_minsert_util [of "mroot m" k v t']
    minsert_util_total [of "mroot m" k v] show ?case by auto
next
  case (erase m k m')
  then obtain t' where t': "mremove_util k (mroot m) = Some t'" "mroot m' = t'"
    by (auto simp: AvlMap_erase_def bind_eq_Some_conv)
  from erase.IH t' mbst_mremove_util [of "mroot m" k t']
    mremove_util_total [of "mroot m" k] show ?case by auto
next
  case (clear m)
  show ?case by (simp add: AvlMap_clear_def mbst_def)
next
  case (index m dflt k ptr m')
  from AvlMap_index_invariants [OF _ _ index.hyps(2)] index.IH show ?case by blast
next
  case (assign m dflt k ptr m' v m'')
  from AvlMap_index_invariants [OF _ _ assign.hyps(2)] assign.IH
  have "mbst (mroot m') \<and> mheights_nonneg (mroot m')" by blast
  with write_ref_invariants [OF _ _ assign.hyps(3)] show ?case by blast
next
  case (assign_at m k ptr v m')
  from write_ref_invariants [OF _ _ assign_at.hyps(3)] assign_at.IH show ?case by blast
qed

subsection \<open>Insertion and removal keep the AVL condition\<close>

lemma mavl_height_ge: "mavl t \<Longrightarrow> - 1 \<le> mheight t"
  by (induction t) auto

lemma mavl_height_MNull: "mavl t \<Longrightarrow> mheight t = - 1 \<longleftrightarrow> t = MNull"
  using mavl_height_ge by (cases t) fastforce+

lemma mavl_true_height: "mavl t \<Longrightarrow> mheight t = mtrue_height t"
  by (induction t) auto

lemma mavl_iff: "mavl t \<longleftrightarrow> mbalanced t \<and> mheights_cached t"
proof (induction t)
  case MNull
  show ?case by simp
next
  case (MNode l r k v h)
  have c: "mheights_cached s \<Longrightarrow> mheight s = mtrue_height s" for s :: "('k, 'v) mtree"
    by (induction s) auto
  from MNode show ?case using c [of l] c [of r] mavl_true_height [of l] mavl_true_height [of r]
    by auto
qed

lemma mbalance_mavl_id: "mavl t \<Longrightarrow> mbalance t = Some t"
  by (cases t) (auto simp: ALLOWED_IMBALANCE_def)

lemma mbalance_mavl:
  assumes "mavl l" and "mavl r" and "\<bar>mheight l - mheight r\<bar> \<le> 2"
  shows "\<exists>t'. mbalance (MNode l r k v h) = Some t' \<and> mavl t' \<and>
           (if \<bar>mheight l - mheight r\<bar> \<le> 1 then mheight t' = 1 + max (mheight l) (mheight r)
            else mheight t' = max (mheight l) (mheight r) \<or>
                 mheight t' = max (mheight l) (mheight r) + 1)"
proof -
  consider (left) "mheight l - mheight r > 1"
    | (right) "mheight r - mheight l > 1"
    | (none) "\<bar>mheight l - mheight r\<bar> \<le> 1"
    by linarith
  then show ?thesis
  proof cases
    case none
    with assms show ?thesis by (auto simp: ALLOWED_IMBALANCE_def)
  next
    case left
    with assms(3) have hl: "mheight l = mheight r + 2" by linarith
    with mavl_height_ge [OF assms(2)] have "0 < mheight l" by simp
    then obtain ll lr lk lv lh where l: "l = MNode ll lr lk lv lh"
      by (cases l) auto
    from assms(1) l have al: "mavl ll" "mavl lr" "\<bar>mheight ll - mheight lr\<bar> \<le> 1"
      "lh = 1 + max (mheight ll) (mheight lr)" by auto
    show ?thesis
    proof (cases "mheight ll \<ge> mheight lr")
      case True
      have "mbalance (MNode (MNode ll lr lk lv lh) r k v h) =
          Some (MNode ll (MNode lr r k v (max (mheight lr) (mheight r) + 1)) lk lv
                  (max (mheight ll) (max (mheight lr) (mheight r) + 1) + 1))"
        using left l True by (intro mbalance_left_single) auto
      with True left l al assms(2) hl show ?thesis by auto
    next
      case False
      with al(3) have lrh: "mheight lr = mheight ll + 1" by linarith
      with mavl_height_ge [OF al(1)] have "0 \<le> mheight lr" by simp
      then obtain lrl lrr lrk lrv lrh where lr: "lr = MNode lrl lrr lrk lrv lrh"
        by (cases lr) auto
      from al(2) lr have alr: "mavl lrl" "mavl lrr" "\<bar>mheight lrl - mheight lrr\<bar> \<le> 1"
        "lrh = 1 + max (mheight lrl) (mheight lrr)" by auto
      have "mbalance (MNode (MNode ll (MNode lrl lrr lrk lrv lrh) lk lv lh) r k v h) =
          Some (MNode (MNode ll lrl lk lv (max (mheight ll) (mheight lrl) + 1))
                  (MNode lrr r k v (max (mheight lrr) (mheight r) + 1)) lrk lrv
                  (max (max (mheight ll) (mheight lrl) + 1)
                       (max (mheight lrr) (mheight r) + 1) + 1))"
        using left l lr False by (intro mbalance_left_double) auto
      with False left l lr al alr assms(2) hl lrh show ?thesis by auto
    qed
  next
    case right
    with assms(3) have hr: "mheight r = mheight l + 2" by linarith
    with mavl_height_ge [OF assms(1)] have "0 < mheight r" by simp
    then obtain rl rr rk rv rh where r: "r = MNode rl rr rk rv rh"
      by (cases r) auto
    from assms(2) r have ar: "mavl rl" "mavl rr" "\<bar>mheight rl - mheight rr\<bar> \<le> 1"
      "rh = 1 + max (mheight rl) (mheight rr)" by auto
    show ?thesis
    proof (cases "mheight rr \<ge> mheight rl")
      case True
      have "mbalance (MNode l (MNode rl rr rk rv rh) k v h) =
          Some (MNode (MNode l rl k v (max (mheight l) (mheight rl) + 1)) rr rk rv
                  (max (max (mheight l) (mheight rl) + 1) (mheight rr) + 1))"
        using right r True by (intro mbalance_right_single) auto
      with True right r ar assms(1) hr show ?thesis by auto
    next
      case False
      with ar(3) have rlh: "mheight rl = mheight rr + 1" by linarith
      with mavl_height_ge [OF ar(2)] have "0 \<le> mheight rl" by simp
      then obtain rll rlr rlk rlv rlh where rl: "rl = MNode rll rlr rlk rlv rlh"
        by (cases rl) auto
      from ar(1) rl have arl: "mavl rll" "mavl rlr" "\<bar>mheight rll - mheight rlr\<bar> \<le> 1"
        "rlh = 1 + max (mheight rll) (mheight rlr)" by auto
      have "mbalance (MNode l (MNode (MNode rll rlr rlk rlv rlh) rr rk rv rh) k v h) =
          Some (MNode (MNode l rll k v (max (mheight l) (mheight rll) + 1))
                  (MNode rlr rr rk rv (max (mheight rlr) (mheight rr) + 1)) rlk rlv
                  (max (max (mheight l) (mheight rll) + 1)
                       (max (mheight rlr) (mheight rr) + 1) + 1))"
        using right r rl False by (intro mbalance_right_double) auto
      with False right r rl ar arl assms(1) hr rlh show ?thesis by auto
    qed
  qed
qed

lemma minsert_util_mavl:
  "mavl t \<Longrightarrow>
   \<exists>t'. minsert_util k v t = Some t' \<and> mavl t' \<and>
        (mheight t' = mheight t \<or> mheight t' = mheight t + 1)"
proof (induction t)
  case MNull
  show ?case by (simp add: ALLOWED_IMBALANCE_def)
next
  case (MNode l r tk tv h)
  then have a: "mavl l" "mavl r" "\<bar>mheight l - mheight r\<bar> \<le> 1"
    "h = 1 + max (mheight l) (mheight r)" by auto
  consider (lt) "k < tk" | (gt) "\<not> k < tk" "tk < k" | (eq) "\<not> k < tk" "\<not> tk < k"
    by blast
  then show ?case
  proof cases
    case lt
    from MNode.IH(1) [OF a(1)] obtain l' where
      l': "minsert_util k v l = Some l'" "mavl l'"
          "mheight l' = mheight l \<or> mheight l' = mheight l + 1" by blast
    from l'(3) a(3) have "\<bar>mheight l' - mheight r\<bar> \<le> 2" by linarith
    from mbalance_mavl [OF l'(2) a(2) this, of tk tv h] obtain t' where
      t': "mbalance (MNode l' r tk tv h) = Some t'" "mavl t'"
          "if \<bar>mheight l' - mheight r\<bar> \<le> 1 then mheight t' = 1 + max (mheight l') (mheight r)
           else mheight t' = max (mheight l') (mheight r) \<or>
                mheight t' = max (mheight l') (mheight r) + 1"
      by blast
    have "mheight t' = h \<or> mheight t' = h + 1"
      using t'(3) l'(3) a(3,4) by (auto split: if_splits)
    with lt l'(1) t'(1,2) show ?thesis by simp
  next
    case gt
    from MNode.IH(2) [OF a(2)] obtain r' where
      r': "minsert_util k v r = Some r'" "mavl r'"
          "mheight r' = mheight r \<or> mheight r' = mheight r + 1" by blast
    from r'(3) a(3) have "\<bar>mheight l - mheight r'\<bar> \<le> 2" by linarith
    from mbalance_mavl [OF a(1) r'(2) this, of tk tv h] obtain t' where
      t': "mbalance (MNode l r' tk tv h) = Some t'" "mavl t'"
          "if \<bar>mheight l - mheight r'\<bar> \<le> 1 then mheight t' = 1 + max (mheight l) (mheight r')
           else mheight t' = max (mheight l) (mheight r') \<or>
                mheight t' = max (mheight l) (mheight r') + 1"
      by blast
    have "mheight t' = h \<or> mheight t' = h + 1"
      using t'(3) r'(3) a(3,4) by (auto split: if_splits)
    with gt r'(1) t'(1,2) show ?thesis by simp
  next
    case eq
    from mbalance_mavl_id [of "MNode l r tk tv h"] MNode.prems eq show ?thesis
      by simp
  qed
qed

lemma mremove_util_mavl:
  "mavl t \<Longrightarrow>
   \<exists>t'. mremove_util x t = Some t' \<and> mavl t' \<and>
        (mheight t' = mheight t \<or> mheight t' = mheight t - 1)"
proof (induction t arbitrary: x)
  case MNull
  show ?case by simp
next
  case (MNode l r k v h)
  then have a: "mavl l" "mavl r" "\<bar>mheight l - mheight r\<bar> \<le> 1"
    "h = 1 + max (mheight l) (mheight r)" by auto
  have right_case: "\<exists>t'. mbalance (MNode l r' k' v h) = Some t' \<and> mavl t' \<and>
        (mheight t' = h \<or> mheight t' = h - 1)"
    if r': "mavl r'" "mheight r' = mheight r \<or> mheight r' = mheight r - 1" for r' k'
  proof -
    from r'(2) a(3) have "\<bar>mheight l - mheight r'\<bar> \<le> 2" by linarith
    from mbalance_mavl [OF a(1) r'(1) this, of k' v h] obtain t' where
      t': "mbalance (MNode l r' k' v h) = Some t'" "mavl t'"
          "if \<bar>mheight l - mheight r'\<bar> \<le> 1 then mheight t' = 1 + max (mheight l) (mheight r')
           else mheight t' = max (mheight l) (mheight r') \<or>
                mheight t' = max (mheight l) (mheight r') + 1"
      by blast
    have "mheight t' = h \<or> mheight t' = h - 1"
      using t'(3) r'(2) a(3,4) by (auto split: if_splits)
    with t'(1,2) show ?thesis by blast
  qed
  consider (lt) "x < k" | (gt) "\<not> x < k" "k < x"
    | (two) "\<not> x < k" "\<not> k < x" "l \<noteq> MNull \<and> r \<noteq> MNull"
    | (one) "\<not> x < k" "\<not> k < x" "\<not> (l \<noteq> MNull \<and> r \<noteq> MNull)"
    by blast
  then show ?case
  proof cases
    case lt
    from MNode.IH(1) [OF a(1), of x] obtain l' where
      l': "mremove_util x l = Some l'" "mavl l'"
          "mheight l' = mheight l \<or> mheight l' = mheight l - 1" by blast
    from l'(3) a(3) have "\<bar>mheight l' - mheight r\<bar> \<le> 2" by linarith
    from mbalance_mavl [OF l'(2) a(2) this, of k v h] obtain t' where
      t': "mbalance (MNode l' r k v h) = Some t'" "mavl t'"
          "if \<bar>mheight l' - mheight r\<bar> \<le> 1 then mheight t' = 1 + max (mheight l') (mheight r)
           else mheight t' = max (mheight l') (mheight r) \<or>
                mheight t' = max (mheight l') (mheight r) + 1"
      by blast
    have "mheight t' = h \<or> mheight t' = h - 1"
      using t'(3) l'(3) a(3,4) by (auto split: if_splits)
    with lt l'(1) t'(1,2) show ?thesis by simp
  next
    case gt
    from MNode.IH(2) [OF a(2), of x] obtain r' where
      r': "mremove_util x r = Some r'" "mavl r'"
          "mheight r' = mheight r \<or> mheight r' = mheight r - 1" by blast
    from right_case [OF r'(2,3), of k] gt r'(1) show ?thesis by simp
  next
    case two
    then have "r \<noteq> MNull" by simp
    from mfindMin_key [OF this] obtain m where m: "key_of (mfindMin r) = Some m" by blast
    from MNode.IH(2) [OF a(2), of m] obtain r' where
      r': "mremove_util m r = Some r'" "mavl r'"
          "mheight r' = mheight r \<or> mheight r' = mheight r - 1" by blast
    from right_case [OF r'(2,3), of m] two m r'(1) show ?thesis by simp
  next
    case one
    define c where "c = (if l \<noteq> MNull then l else r)"
    have "mavl c" using a(1,2) by (simp add: c_def)
    then have b: "mbalance c = Some c" by (rule mbalance_mavl_id)
    have "mheight c = h - 1"
      using one a(1,2,4) mavl_height_ge [of l] mavl_height_ge [of r]
      by (auto simp: c_def)
    with one b \<open>mavl c\<close> show ?thesis by (auto simp: c_def)
  qed
qed

lemma mavl_heights_nonneg: "mavl t \<Longrightarrow> mheights_nonneg t"
proof (induction t)
  case MNull
  show ?case by simp
next
  case (MNode l r k v h)
  then show ?case using mavl_height_ge [of l] by auto
qed

text \<open>Erasing a key that no node holds returns and keeps the in-order sequence.\<close>

lemma mremove_util_absent:
  "mheights_nonneg t \<Longrightarrow> x \<notin> mkeys t \<Longrightarrow>
   \<exists>t'. mremove_util x t = Some t' \<and> minorder t' = minorder t"
proof (induction t)
  case MNull
  show ?case by simp
next
  case (MNode l r k v h)
  then have nn: "mheights_nonneg l" "mheights_nonneg r"
    and ab: "x \<notin> mkeys l" "x \<notin> mkeys r" "x \<noteq> k" by auto
  show ?case
  proof (cases "x < k")
    case True
    from MNode.IH(1) [OF nn(1) ab(1)] obtain l' where
      l': "mremove_util x l = Some l'" "minorder l' = minorder l" by blast
    from mremove_util_total [OF nn(1), of x] l'(1) have "mheights_nonneg l'" by simp
    from mbalance_total [OF this nn(2), of k v h] obtain t' where
      t': "mbalance (MNode l' r k v h) = Some t'" by blast
    from minorder_mbalance [OF t'] l'(2) have "minorder t' = minorder (MNode l r k v h)"
      by simp
    with True l'(1) t' show ?thesis by (simp del: mbalance.simps)
  next
    case False
    with ab(3) have gt: "k < x" by simp
    from MNode.IH(2) [OF nn(2) ab(2)] obtain r' where
      r': "mremove_util x r = Some r'" "minorder r' = minorder r" by blast
    from mremove_util_total [OF nn(2), of x] r'(1) have "mheights_nonneg r'" by simp
    from mbalance_total [OF nn(1) this, of k v h] obtain t' where
      t': "mbalance (MNode l r' k v h) = Some t'" by blast
    from minorder_mbalance [OF t'] r'(2) have "minorder t' = minorder (MNode l r k v h)"
      by simp
    with False gt r'(1) t' show ?thesis by (simp del: mbalance.simps)
  qed
qed

lemma AvlMap_erase_absent:
  assumes "reachable m" and "k \<notin> mkeys (mroot m)"
  shows "\<exists>m'. AvlMap_erase k m = Some m' \<and> minorder (mroot m') = minorder (mroot m) \<and>
           AvlMap_size m' = AvlMap_size m - 1"
proof -
  from reachable_invariants [OF assms(1)] have "mheights_nonneg (mroot m)" by simp
  from mremove_util_absent [OF this assms(2)] show ?thesis
    by (auto simp: AvlMap_erase_def AvlMap_size_def)
qed

text \<open>The map's \<^verbatim>\<open>insert\<close> and \<^verbatim>\<open>erase\<close> keep the AVL condition and the key order.\<close>

lemma AvlMap_insert_mavl:
  assumes "mavl (mroot m)" and "mbst (mroot m)"
  shows "\<exists>m'. AvlMap_insert k v m = Some m' \<and> mavl (mroot m') \<and> mbst (mroot m')"
proof -
  from minsert_util_mavl [OF assms(1), of k v] obtain t' where
    t': "minsert_util k v (mroot m) = Some t'" "mavl t'" by blast
  with mbst_minsert_util [OF assms(2) t'(1)] show ?thesis
    by (simp add: AvlMap_insert_def)
qed

lemma AvlMap_erase_mavl:
  assumes "mavl (mroot m)" and "mbst (mroot m)"
  shows "\<exists>m'. AvlMap_erase k m = Some m' \<and> mavl (mroot m') \<and> mbst (mroot m')"
proof -
  from mremove_util_mavl [OF assms(1), of k] obtain t' where
    t': "mremove_util k (mroot m) = Some t'" "mavl t'" by blast
  with mbst_mremove_util [OF assms(2) t'(1)] show ?thesis
    by (simp add: AvlMap_erase_def)
qed

text \<open>Bulk construction is a sequence of inserts.\<close>

lemma minsert_range_mavl:
  "mavl (mroot m) \<Longrightarrow> mbst (mroot m) \<Longrightarrow>
   \<exists>m'. minsert_range xs m = Some m' \<and> mavl (mroot m') \<and> mbst (mroot m')"
proof (induction xs arbitrary: m)
  case Nil
  then show ?case by simp
next
  case (Cons p xs)
  obtain k v where p: "p = (k, v)" by (cases p)
  from AvlMap_insert_mavl [OF Cons.prems, of k v] obtain m1 where
    m1: "AvlMap_insert k v m = Some m1" "mavl (mroot m1)" "mbst (mroot m1)" by blast
  from Cons.IH [OF m1(2,3)] m1(1) p show ?case by simp
qed

lemma AvlMap_of_range_mavl:
  "\<exists>m. AvlMap_of_range xs = Some m \<and> mavl (mroot m) \<and> mbst (mroot m)"
  using minsert_range_mavl [of AvlMap_new xs]
  by (simp add: AvlMap_of_range_def AvlMap_new_def mbst_def)

section \<open>Properties of the set's tree operations\<close>

lemma avl_height_ge: "avl t \<Longrightarrow> - 1 \<le> height t"
  by (induction t) auto

lemma avl_iff: "avl t \<longleftrightarrow> balanced t \<and> heights_cached t"
proof (induction t)
  case Null
  show ?case by simp
next
  case (Node l r d h)
  have c: "heights_cached s \<Longrightarrow> height s = true_height s" for s :: "'a tree"
    by (induction s) auto
  have a: "avl s \<Longrightarrow> height s = true_height s" for s :: "'a tree"
    by (induction s) auto
  from Node show ?case using c [of l] c [of r] a [of l] a [of r]
    by auto
qed

lemma balance_avl_id: "avl t \<Longrightarrow> balance t = Some t"
  by (cases t) (auto simp: ALLOWED_IMBALANCE_def)

text \<open>On a tree that satisfies the AVL condition \<^verbatim>\<open>remove_util\<close> changes no node.\<close>

lemma remove_util_avl:
  "avl t \<Longrightarrow> bst t \<Longrightarrow>
   remove_util x t s = Some (t, if x \<in> set (inorder t) then s + 1 else s)"
proof (induction t)
  case Null
  show ?case by simp
next
  case (Node l r d h)
  from Node.prems(1) have a: "avl l" "avl r" by auto
  from Node.prems(2) have b: "bst l" "bst r"
    and lt: "\<forall>y \<in> set (inorder l). y < d" and gt: "\<forall>y \<in> set (inorder r). d < y"
    by (auto simp: bst_def sorted_wrt_append)
  have id: "balance (Node l r d h) = Some (Node l r d h)"
    by (rule balance_avl_id [OF Node.prems(1)])
  consider (lt) "x < d" | (gt) "\<not> x < d" "d < x" | (eq) "x = d"
    by fastforce
  then show ?case
  proof cases
    case lt
    then have "x \<notin> set (inorder r)" using gt by auto
    with lt show ?thesis
      by (auto simp add: Node.IH(1) [OF a(1) b(1)] id simp del: balance.simps)
  next
    case gt
    then have "x \<notin> set (inorder l)" using lt by auto
    with gt show ?thesis
      by (auto simp add: Node.IH(2) [OF a(2) b(2)] id simp del: balance.simps)
  next
    case eq
    then show ?thesis by simp
  qed
qed

text \<open>
  \<^verbatim>\<open>AvlTree::remove\<close> on a set whose tree is an AVL search tree: the tree is returned as
  it is, and the count is decremented exactly when the key is absent.
\<close>

lemma AvlTree_remove_avl:
  assumes "avl (root c)" and "bst (root c)"
  shows "AvlTree_remove x c =
           Some \<lparr>root = root c, sz = (if x \<in> set (inorder (root c)) then sz c else sz c - 1)\<rparr>"
  using remove_util_avl [OF assms, of x "sz c"]
  by (simp add: AvlTree_remove_def)

lemma set_ins_key: "set (ins_key x xs) = insert x (set xs)"
  by (induction xs) auto

lemma sorted_ins_key: "sorted_wrt (<) xs \<Longrightarrow> sorted_wrt (<) (ins_key x xs)"
  by (induction xs) (auto simp: set_ins_key)

lemma ins_key_append:
  "sorted_wrt (<) (xs @ a # ys) \<Longrightarrow>
   ins_key x (xs @ a # ys) =
     (if x < a then ins_key x xs @ a # ys
      else if a < x then xs @ a # ins_key x ys
      else xs @ a # ys)"
  by (induction xs) (auto simp: sorted_wrt_append)

lemma inorder_rotateWithLeftChild:
  "rotateWithLeftChild t = Some t' \<Longrightarrow> inorder t' = inorder t"
  by (induction t rule: rotateWithLeftChild.induct) (auto simp: Let_def)

lemma inorder_rotateWithRightChild:
  "rotateWithRightChild t = Some t' \<Longrightarrow> inorder t' = inorder t"
  by (induction t rule: rotateWithRightChild.induct) (auto simp: Let_def)

lemma inorder_doubleWithLeftChild:
  "doubleWithLeftChild t = Some t' \<Longrightarrow> inorder t' = inorder t"
  by (cases t)
    (auto simp: bind_eq_Some_conv
      dest!: inorder_rotateWithLeftChild inorder_rotateWithRightChild)

lemma inorder_doubleWithRightChild:
  "doubleWithRightChild t = Some t' \<Longrightarrow> inorder t' = inorder t"
  by (cases t)
    (auto simp: bind_eq_Some_conv
      dest!: inorder_rotateWithLeftChild inorder_rotateWithRightChild)

lemma inorder_set_height: "set_height t = Some t' \<Longrightarrow> inorder t' = inorder t"
  by (cases t) auto

lemma inorder_balance: "balance t = Some t' \<Longrightarrow> inorder t' = inorder t"
  by (cases t)
    (auto simp: bind_eq_Some_conv split: if_splits tree.splits
      simp del: rotateWithLeftChild.simps rotateWithRightChild.simps
        doubleWithLeftChild.simps doubleWithRightChild.simps
      dest!: inorder_rotateWithLeftChild inorder_rotateWithRightChild
        inorder_doubleWithLeftChild inorder_doubleWithRightChild inorder_set_height)

text \<open>Whenever \<^verbatim>\<open>remove_util\<close> returns, the in-order sequence is the one before the call.\<close>

lemma inorder_remove_util:
  "remove_util x t s = Some (t', s') \<Longrightarrow> inorder t' = inorder t"
proof (induction t arbitrary: t' s')
  case Null
  then show ?case by simp
next
  case (Node l r d h)
  consider (lt) "x < d" | (gt) "\<not> x < d" "d < x" | (eq) "x = d"
    by fastforce
  then show ?case
  proof cases
    case lt
    with Node.prems obtain l' where
      "remove_util x l s = Some (l', s')" "balance (Node l' r d h) = Some t'"
      by (auto simp: bind_eq_Some_conv simp del: balance.simps)
    with Node.IH(1) inorder_balance show ?thesis by fastforce
  next
    case gt
    with Node.prems obtain r' where
      "remove_util x r s = Some (r', s')" "balance (Node l r' d h) = Some t'"
      by (auto simp: bind_eq_Some_conv simp del: balance.simps)
    with Node.IH(2) inorder_balance show ?thesis by fastforce
  next
    case eq
    with Node.prems show ?thesis by simp
  qed
qed

lemma inorder_insert_util:
  "bst t \<Longrightarrow> insert_util x t s = Some (t', s') \<Longrightarrow> inorder t' = ins_key x (inorder t)"
proof (induction t arbitrary: t' s')
  case Null
  then show ?case by (auto simp: ALLOWED_IMBALANCE_def)
next
  case (Node l r d h)
  from Node.prems(1) have sl: "bst l" and sr: "bst r"
    by (auto simp: bst_def sorted_wrt_append)
  from Node.prems(1) have so: "sorted_wrt (<) (inorder l @ d # inorder r)"
    by (simp add: bst_def)
  consider (lt) "x < d" | (gt) "\<not> x < d" "d < x" | (eq) "\<not> x < d" "\<not> d < x"
    by blast
  then show ?case
  proof cases
    case lt
    with Node.prems(2) obtain l' where
      l': "insert_util x l s = Some (l', s')" "balance (Node l' r d h) = Some t'"
      by (auto simp: bind_eq_Some_conv simp del: balance.simps)
    from inorder_balance [OF l'(2)] Node.IH(1) [OF sl l'(1)] lt
    show ?thesis by (simp add: ins_key_append [OF so])
  next
    case gt
    with Node.prems(2) obtain r' where
      r': "insert_util x r s = Some (r', s')" "balance (Node l r' d h) = Some t'"
      by (auto simp: bind_eq_Some_conv simp del: balance.simps)
    from inorder_balance [OF r'(2)] Node.IH(2) [OF sr r'(1)] gt
    show ?thesis by (simp add: ins_key_append [OF so])
  next
    case eq
    with Node.prems(2) have "balance (Node l r d h) = Some t'"
      by (auto simp: bind_eq_Some_conv simp del: balance.simps)
    from inorder_balance [OF this] eq
    show ?thesis by (simp add: ins_key_append [OF so])
  qed
qed

lemma balance_avl:
  assumes "avl l" and "avl r" and "\<bar>height l - height r\<bar> \<le> 2"
  shows "\<exists>t'. balance (Node l r d h) = Some t' \<and> avl t' \<and>
           (if \<bar>height l - height r\<bar> \<le> 1 then height t' = 1 + max (height l) (height r)
            else height t' = max (height l) (height r) \<or>
                 height t' = max (height l) (height r) + 1)"
proof -
  consider (left) "height l - height r > 1"
    | (right) "height r - height l > 1"
    | (none) "\<bar>height l - height r\<bar> \<le> 1"
    by linarith
  then show ?thesis
  proof cases
    case none
    with assms show ?thesis by (auto simp: ALLOWED_IMBALANCE_def)
  next
    case left
    with assms(3) have hl: "height l = height r + 2" by linarith
    with avl_height_ge [OF assms(2)] have "0 < height l" by simp
    then obtain ll lr ld lh where l: "l = Node ll lr ld lh"
      by (cases l) auto
    from assms(1) l have al: "avl ll" "avl lr" "\<bar>height ll - height lr\<bar> \<le> 1"
      "lh = 1 + max (height ll) (height lr)" by auto
    show ?thesis
    proof (cases "height ll \<ge> height lr")
      case True
      have "balance (Node (Node ll lr ld lh) r d h) =
          Some (Node ll (Node lr r d (max (height lr) (height r) + 1)) ld
                  (max (height ll) (max (height lr) (height r) + 1) + 1))"
        using left l True by (intro balance_left_single) auto
      with True left l al assms(2) hl show ?thesis by auto
    next
      case False
      with al(3) have lrh: "height lr = height ll + 1" by linarith
      with avl_height_ge [OF al(1)] have "0 \<le> height lr" by simp
      then obtain lrl lrr lrd lrh where lr: "lr = Node lrl lrr lrd lrh"
        by (cases lr) auto
      from al(2) lr have alr: "avl lrl" "avl lrr" "\<bar>height lrl - height lrr\<bar> \<le> 1"
        "lrh = 1 + max (height lrl) (height lrr)" by auto
      have "balance (Node (Node ll (Node lrl lrr lrd lrh) ld lh) r d h) =
          Some (Node (Node ll lrl ld (max (height ll) (height lrl) + 1))
                  (Node lrr r d (max (height lrr) (height r) + 1)) lrd
                  (max (max (height ll) (height lrl) + 1)
                       (max (height lrr) (height r) + 1) + 1))"
        using left l lr False by (intro balance_left_double) auto
      with False left l lr al alr assms(2) hl lrh show ?thesis by auto
    qed
  next
    case right
    with assms(3) have hr: "height r = height l + 2" by linarith
    with avl_height_ge [OF assms(1)] have "0 < height r" by simp
    then obtain rl rr rd rh where r: "r = Node rl rr rd rh"
      by (cases r) auto
    from assms(2) r have ar: "avl rl" "avl rr" "\<bar>height rl - height rr\<bar> \<le> 1"
      "rh = 1 + max (height rl) (height rr)" by auto
    show ?thesis
    proof (cases "height rr \<ge> height rl")
      case True
      have "balance (Node l (Node rl rr rd rh) d h) =
          Some (Node (Node l rl d (max (height l) (height rl) + 1)) rr rd
                  (max (max (height l) (height rl) + 1) (height rr) + 1))"
        using right r True by (intro balance_right_single) auto
      with True right r ar assms(1) hr show ?thesis by auto
    next
      case False
      with ar(3) have rlh: "height rl = height rr + 1" by linarith
      with avl_height_ge [OF ar(2)] have "0 \<le> height rl" by simp
      then obtain rll rlr rld rlh where rl: "rl = Node rll rlr rld rlh"
        by (cases rl) auto
      from ar(1) rl have arl: "avl rll" "avl rlr" "\<bar>height rll - height rlr\<bar> \<le> 1"
        "rlh = 1 + max (height rll) (height rlr)" by auto
      have "balance (Node l (Node (Node rll rlr rld rlh) rr rd rh) d h) =
          Some (Node (Node l rll d (max (height l) (height rll) + 1))
                  (Node rlr rr rd (max (height rlr) (height rr) + 1)) rld
                  (max (max (height l) (height rll) + 1)
                       (max (height rlr) (height rr) + 1) + 1))"
        using right r rl False by (intro balance_right_double) auto
      with False right r rl ar arl assms(1) hr rlh show ?thesis by auto
    qed
  qed
qed

lemma insert_util_avl:
  "avl t \<Longrightarrow> bst t \<Longrightarrow>
   \<exists>t'. insert_util x t s = Some (t', if x \<in> set (inorder t) then s - 1 else s) \<and> avl t' \<and>
        (height t' = height t \<or> height t' = height t + 1)"
proof (induction t)
  case Null
  show ?case by (simp add: ALLOWED_IMBALANCE_def)
next
  case (Node l r d h)
  from Node.prems(1) have a: "avl l" "avl r" "\<bar>height l - height r\<bar> \<le> 1"
    "h = 1 + max (height l) (height r)" by auto
  from Node.prems(2) have b: "bst l" "bst r"
    and lt: "\<forall>y \<in> set (inorder l). y < d" and gt: "\<forall>y \<in> set (inorder r). d < y"
    by (auto simp: bst_def sorted_wrt_append)
  consider (lt) "x < d" | (gt) "\<not> x < d" "d < x" | (eq) "\<not> x < d" "\<not> d < x"
    by blast
  then show ?case
  proof cases
    case lt
    from Node.IH(1) [OF a(1) b(1)] obtain l' where
      l': "insert_util x l s = Some (l', if x \<in> set (inorder l) then s - 1 else s)" "avl l'"
          "height l' = height l \<or> height l' = height l + 1" by blast
    from l'(3) a(3) have "\<bar>height l' - height r\<bar> \<le> 2" by linarith
    from balance_avl [OF l'(2) a(2) this, of d h] obtain t' where
      t': "balance (Node l' r d h) = Some t'" "avl t'"
          "if \<bar>height l' - height r\<bar> \<le> 1 then height t' = 1 + max (height l') (height r)
           else height t' = max (height l') (height r) \<or>
                height t' = max (height l') (height r) + 1"
      by blast
    have "height t' = h \<or> height t' = h + 1"
      using t'(3) l'(3) a(3,4) by (auto split: if_splits)
    moreover have "x \<in> set (inorder (Node l r d h)) \<longleftrightarrow> x \<in> set (inorder l)"
      using lt gt by auto
    ultimately show ?thesis
      using lt l'(1) t'(1,2) by (simp del: balance.simps)
  next
    case gt
    from Node.IH(2) [OF a(2) b(2)] obtain r' where
      r': "insert_util x r s = Some (r', if x \<in> set (inorder r) then s - 1 else s)" "avl r'"
          "height r' = height r \<or> height r' = height r + 1" by blast
    from r'(3) a(3) have "\<bar>height l - height r'\<bar> \<le> 2" by linarith
    from balance_avl [OF a(1) r'(2) this, of d h] obtain t' where
      t': "balance (Node l r' d h) = Some t'" "avl t'"
          "if \<bar>height l - height r'\<bar> \<le> 1 then height t' = 1 + max (height l) (height r')
           else height t' = max (height l) (height r') \<or>
                height t' = max (height l) (height r') + 1"
      by blast
    have "height t' = h \<or> height t' = h + 1"
      using t'(3) r'(3) a(3,4) by (auto split: if_splits)
    moreover have "x \<in> set (inorder (Node l r d h)) \<longleftrightarrow> x \<in> set (inorder r)"
      using gt lt by auto
    ultimately show ?thesis
      using gt r'(1) t'(1,2) by (simp del: balance.simps)
  next
    case eq
    then have "x = d" by simp
    with balance_avl_id [OF Node.prems(1)] Node.prems(1) show ?thesis
      by (simp del: balance.simps)
  qed
qed

lemma AvlTree_insert_avl:
  assumes "avl (root c)" and "bst (root c)"
  shows "\<exists>c'. AvlTree_insert x c = Some c' \<and> avl (root c') \<and> bst (root c') \<and>
           inorder (root c') = ins_key x (inorder (root c)) \<and>
           sz c' = (if x \<in> set (inorder (root c)) then sz c else sz c + 1)"
proof -
  from insert_util_avl [OF assms, of x "sz c"] obtain t' where
    t': "insert_util x (root c) (sz c) =
           Some (t', if x \<in> set (inorder (root c)) then sz c - 1 else sz c)" "avl t'"
    by blast
  have io: "inorder t' = ins_key x (inorder (root c))"
    by (rule inorder_insert_util [OF assms(2) t'(1)])
  then have "bst t'" using assms(2) by (simp add: bst_def sorted_ins_key)
  with t' io show ?thesis by (simp add: AvlTree_insert_def)
qed

text \<open>Bulk construction of a set is a sequence of inserts.\<close>

lemma insert_range_avl:
  "avl (root c) \<Longrightarrow> bst (root c) \<Longrightarrow>
   \<exists>c'. insert_range xs c = Some c' \<and> avl (root c') \<and> bst (root c')"
proof (induction xs arbitrary: c)
  case Nil
  then show ?case by simp
next
  case (Cons x xs)
  from AvlTree_insert_avl [OF Cons.prems, of x] obtain c1 where
    c1: "AvlTree_insert x c = Some c1" "avl (root c1)" "bst (root c1)" by blast
  from Cons.IH [OF c1(2,3)] c1(1) show ?case by simp
qed

lemma AvlTree_of_range_avl:
  "\<exists>c. AvlTree_of_range xs = Some c \<and> avl (root c) \<and> bst (root c)"
  using insert_range_avl [of AvlTree_new xs]
  by (simp add: AvlTree_of_range_def AvlTree_new_def bst_def)

lemma reachable_set_invariants: "reachable_set c \<Longrightarrow> avl (root c) \<and> bst (root c)"
proof (induction rule: reachable_set.induct)
  case new
  show ?case by (simp add: AvlTree_new_def bst_def)
next
  case (insert c x c')
  with AvlTree_insert_avl [of c x] show ?case by auto
next
  case (remove c x c')
  with AvlTree_remove_avl [of c x] show ?case by auto
next
  case (clear c)
  show ?case by (simp add: AvlTree_clear_def bst_def)
qed

text \<open>
  In every reachable state of the set, \<^verbatim>\<open>remove\<close> returns the tree as it is: a key that
  is present stays, and the count goes down by one exactly when the key is absent.
\<close>

lemma AvlTree_remove_reachable:
  "reachable_set c \<Longrightarrow>
   AvlTree_remove x c =
     Some \<lparr>root = root c, sz = (if x \<in> set (inorder (root c)) then sz c else sz c - 1)\<rparr>"
  using AvlTree_remove_avl reachable_set_invariants by blast

text \<open>
  On a non-empty search tree \<^verbatim>\<open>findMin\<close> and \<^verbatim>\<open>findMax\<close> reach the first and the last
  element of the in-order sequence, its least and greatest key.
\<close>

lemma deref_findMin: "t \<noteq> Null \<Longrightarrow> deref (findMin t) = Some (hd (inorder t))"
  by (induction t rule: findMin.induct) (auto simp: hd_append)

lemma deref_findMax: "t \<noteq> Null \<Longrightarrow> deref (findMax t) = Some (last (inorder t))"
  by (induction t rule: findMax.induct) auto

lemma sorted_hd_least:
  "sorted_wrt (<) (xs :: 'a::linorder list) \<Longrightarrow> x \<in> set xs \<Longrightarrow> hd xs \<le> x"
  by (cases xs) auto

lemma sorted_last_greatest:
  "sorted_wrt (<) (xs :: 'a::linorder list) \<Longrightarrow> x \<in> set xs \<Longrightarrow> x \<le> last xs"
  by (induction xs) (auto simp: less_imp_le)

lemma min_max_element_nonempty:
  assumes "\<not> AvlTree_empty c" and "root c \<noteq> Null" and "bst (root c)"
  shows "\<exists>lo hi. min_element c = Some (Inr lo) \<and> max_element c = Some (Inr hi) \<and>
           lo \<in> set (inorder (root c)) \<and> hi \<in> set (inorder (root c)) \<and>
           (\<forall>x \<in> set (inorder (root c)). lo \<le> x \<and> x \<le> hi)"
proof -
  from assms(2) have ne: "inorder (root c) \<noteq> []" by (cases "root c") auto
  have "min_element c = Some (Inr (hd (inorder (root c))))"
    using assms(1,2) by (simp add: min_element_def deref_findMin)
  moreover have "max_element c = Some (Inr (last (inorder (root c))))"
    using assms(1,2) by (simp add: max_element_def deref_findMax)
  moreover have "\<forall>x \<in> set (inorder (root c)).
      hd (inorder (root c)) \<le> x \<and> x \<le> last (inorder (root c))"
    using assms(3) sorted_hd_least sorted_last_greatest by (auto simp: bst_def)
  ultimately show ?thesis using ne by auto
qed

text \<open>\<^verbatim>\<open>clear\<close> leaves the count of every set and every map as it was.\<close>

lemma AvlTree_clear_size:
  "AvlTree_size (AvlTree_clear c) = AvlTree_size c \<and> root (AvlTree_clear c) = Null"
  by (simp add: AvlTree_clear_def AvlTree_size_def)

lemma AvlMap_clear_size:
  "AvlMap_size (AvlMap_clear m) = AvlMap_size m \<and> mroot (AvlMap_clear m) = MNull"
  by (simp add: AvlMap_clear_def AvlMap_size_def)

text \<open>
  The non-const \<^verbatim>\<open>operator[]\<close> on a key that no node holds, for every tree whatever its
  shape and height fields: the call returns a reference through which the default value
  is read, the count grows by 1 in the arithmetic of \<^verbatim>\<open>std::size_t\<close>, the number of
  nodes grows by 1, the in-order sequence gets the entry \<open>(k, default)\<close> at one place,
  and the same call repeated at once returns the same reference and changes nothing.
\<close>

lemma AvlMap_index_absent:
  assumes "k \<notin> mkeys (mroot m)"
  shows "\<exists>ptr m' xs ys.
           AvlMap_index dflt k m = Some (ptr, m') \<and>
           read_ref ptr m' = Some dflt \<and>
           AvlMap_size m' = AvlMap_size m + 1 \<and>
           mcount_nodes (mroot m') = mcount_nodes (mroot m) + 1 \<and>
           minorder (mroot m) = xs @ ys \<and>
           minorder (mroot m') = xs @ (k, dflt) # ys \<and>
           AvlMap_index dflt k m' = Some (ptr, m')"
proof (cases "mroot m = MNull")
  case True
  define m' where "m' = \<lparr>mroot = MNode MNull MNull k dflt 0, msz = msz m + 1\<rparr>"
  have "AvlMap_index dflt k m = Some ([], m')"
    using True by (simp add: AvlMap_index_def search_def ALLOWED_IMBALANCE_def m'_def)
  moreover have "AvlMap_index dflt k m' = Some ([], m')"
    by (simp add: AvlMap_index_def search_def m'_def)
  moreover have "read_ref [] m' = Some dflt"
    by (simp add: read_ref_def m'_def)
  moreover have "minorder (mroot m) = [] @ []" using True by simp
  moreover have "minorder (mroot m') = [] @ (k, dflt) # []" by (simp add: m'_def)
  moreover have "AvlMap_size m' = AvlMap_size m + 1"
    by (simp add: AvlMap_size_def m'_def)
  moreover have "mcount_nodes (mroot m') = mcount_nodes (mroot m) + 1"
    using True by (simp add: m'_def)
  ultimately show ?thesis by blast
next
  case False
  define n where "n = MNode MNull MNull k dflt 0"
  have sn: "stops_at k n" by (simp add: n_def)
  from search_loop_absent [OF assms False sn, of "[]"] obtain q t' xs ys where
    q: "search_loop k (mroot m) [] = Some q" "q \<noteq> []"
       "slot_get q (mroot m) = Some MNull" "slot_set q n (mroot m) = Some t'"
       "slot_get q t' = Some n" "search_loop k t' [] = Some q" "\<not> stops_at k t'"
       "minorder (mroot m) = xs @ ys" "minorder t' = xs @ minorder n @ ys"
       "mcount_nodes t' = mcount_nodes (mroot m) + mcount_nodes n"
    by auto
  define m' where "m' = \<lparr>mroot = t', msz = msz m + 1\<rparr>"
  have ns: "\<not> stops_at k (mroot m)"
    using assms False by (simp add: stops_at_absent)
  have "AvlMap_index dflt k m = Some (q, m')"
    using ns q(1,3,4,5)
    by (simp add: AvlMap_index_def search_def ALLOWED_IMBALANCE_def m'_def n_def)
  moreover have "AvlMap_index dflt k m' = Some (q, m')"
    using q(5,6,7) by (simp add: AvlMap_index_def search_def m'_def n_def)
  moreover have "read_ref q m' = Some dflt"
    using q(5) by (simp add: read_ref_def m'_def n_def)
  moreover have "minorder (mroot m') = xs @ (k, dflt) # ys"
    using q(9) by (simp add: m'_def n_def)
  moreover have "AvlMap_size m' = AvlMap_size m + 1"
    by (simp add: AvlMap_size_def m'_def)
  moreover have "mcount_nodes (mroot m') = mcount_nodes (mroot m) + 1"
    using q(10) by (simp add: m'_def n_def)
  ultimately show ?thesis using q(8) by blast
qed

section \<open>The claims\<close>

subsection \<open>C1: removing present keys from the set\<close>

text \<open>
  Claim C1. For the set, after inserting the keys 1 to 10 and calling \<^verbatim>\<open>remove(8)\<close> and
  \<^verbatim>\<open>remove(10)\<close>, the in-order enumeration should be 1,2,3,4,5,6,7,9. The code gives
  another result: in \<^verbatim>\<open>AvlTree::remove_util\<close> the branch \<^verbatim>\<open>else if (t->data == x)\<close>
  comes before the two branches that unlink a node, increments \<^verbatim>\<open>sz\<close> and returns, so
  a key that is found is never removed. Evaluated on this input, all ten keys are still
  enumerated and \<^verbatim>\<open>size()\<close> is still 10. (In every reachable state of the set
  \<^verbatim>\<open>remove\<close> returns the tree as it is: lemma \<open>AvlTree_remove_reachable\<close>.)
\<close>

theorem remove_8_10_keeps_all_ten_keys:
  "map_option (\<lambda>c. (inorder (root c), AvlTree_size c))
     (do {
        c \<leftarrow> AvlTree_of_range [1, 2, 3, 4, 5, 6, 7, 8, 9, 10 :: int];
        c \<leftarrow> AvlTree_remove 8 c;
        AvlTree_remove 10 c
      })
   = Some ([1, 2, 3, 4, 5, 6, 7, 8, 9, 10], 10)"
  by (simp add: set_eval ALLOWED_IMBALANCE_def)

subsection \<open>C2: inserting a key twice into the map\<close>

text \<open>
  Claim C2, as amended. For the map, on a search tree whose height fields are not
  negative (every reachable state is one: lemma \<open>reachable_invariants\<close>),
  \<^verbatim>\<open>insert(k, v1)\<close> followed by \<^verbatim>\<open>insert(k, v2)\<close> both return, and a lookup of \<open>k\<close> with
  \<^verbatim>\<open>at\<close> after the second insert returns what it returned after the first: \<open>v1\<close> when
  \<open>k\<close> was absent before the first insert, and the value stored before otherwise.
  \<^verbatim>\<open>AvlMap::insert_util\<close> has no branch for an equal key, so \<^verbatim>\<open>insert\<close> never overwrites
  a value. (Nothing is said here about \<^verbatim>\<open>size()\<close>.)
\<close>

theorem insert_existing_key_keeps_value:
  assumes "mbst (mroot m)" and "mheights_nonneg (mroot m)"
  shows "\<exists>m1 m2.
           AvlMap_insert k v1 m = Some m1 \<and> AvlMap_insert k v2 m1 = Some m2 \<and>
           AvlMap_at k m2 = AvlMap_at k m1 \<and>
           AvlMap_at k m1 =
             Some (Inr (case map_of (minorder (mroot m)) k of None \<Rightarrow> v1 | Some old \<Rightarrow> old))"
proof -
  from minsert_util_total [OF assms(2), of k v1] obtain t1 where
    t1: "minsert_util k v1 (mroot m) = Some t1" "mheights_nonneg t1" by blast
  from minsert_util_total [OF t1(2), of k v2] obtain t2 where
    t2: "minsert_util k v2 t1 = Some t2" "mheights_nonneg t2" by blast
  define m1 where "m1 = \<lparr>mroot = t1, msz = msz m + 1\<rparr>"
  define m2 where "m2 = \<lparr>mroot = t2, msz = msz m1 + 1\<rparr>"
  have i1: "AvlMap_insert k v1 m = Some m1"
    using t1(1) by (simp add: AvlMap_insert_def m1_def)
  have i2: "AvlMap_insert k v2 m1 = Some m2"
    using t2(1) by (simp add: AvlMap_insert_def m1_def m2_def)
  have b1: "mbst t1" by (rule mbst_minsert_util [OF assms(1) t1(1)])
  have b2: "mbst t2" by (rule mbst_minsert_util [OF b1 t2(1)])
  have s0: "ksorted (minorder (mroot m))" using assms(1) by (simp add: mbst_def)
  have s1: "ksorted (minorder t1)" using b1 by (simp add: mbst_def)
  have o1: "minorder t1 = ins_kv k v1 (minorder (mroot m))"
    by (rule minorder_minsert_util [OF assms(1) t1(1)])
  have o2: "minorder t2 = ins_kv k v2 (minorder t1)"
    by (rule minorder_minsert_util [OF b1 t2(1)])
  have l1: "map_of (minorder t1) k =
      Some (case map_of (minorder (mroot m)) k of None \<Rightarrow> v1 | Some old \<Rightarrow> old)"
    unfolding o1 by (rule map_of_ins_kv [OF s0])
  have l2: "map_of (minorder t2) k = map_of (minorder t1) k"
    unfolding o2 using map_of_ins_kv [OF s1, of k v2] l1 by simp
  have a1: "AvlMap_at k m1 =
      Some (Inr (case map_of (minorder (mroot m)) k of None \<Rightarrow> v1 | Some old \<Rightarrow> old))"
    using AvlMap_at_bst [of m1 k] b1 l1 by (simp add: m1_def)
  have a2: "AvlMap_at k m2 = AvlMap_at k m1"
    using AvlMap_at_bst [of m2 k] b2 l2 l1 a1 by (simp add: m2_def)
  from i1 i2 a1 a2 show ?thesis by blast
qed

text \<open>The theorem at a map with the keys 1 and 2 and the new key 3.\<close>

theorem insert_existing_key_keeps_value_witness:
  "mbst (mroot map_with_1_2) \<and> mheights_nonneg (mroot map_with_1_2) \<and>
   (\<exists>m1 m2.
      AvlMap_insert 3 10 map_with_1_2 = Some m1 \<and> AvlMap_insert 3 20 m1 = Some m2 \<and>
      AvlMap_at 3 m2 = AvlMap_at 3 m1 \<and>
      AvlMap_at 3 m1 = Some (Inr 10))"
proof -
  have b: "mbst (mroot map_with_1_2)" and n: "mheights_nonneg (mroot map_with_1_2)"
    by (simp_all add: map_with_1_2_def mbst_def)
  have "map_of (minorder (mroot map_with_1_2)) 3 = None"
    by (simp add: map_with_1_2_def)
  with insert_existing_key_keeps_value [OF b n, of 3 10 20] b n show ?thesis
    by simp
qed

text \<open>
  The claim as stated fails on the empty map with \<open>k = 1\<close>, \<open>v1 = 10\<close>, \<open>v2 = 20\<close>: the
  lookup returns 10, not 20, and \<^verbatim>\<open>size()\<close> goes from 1 to 2.
\<close>

theorem insert_twice_counterexample:
  "map_option (\<lambda>(m1, m2). (AvlMap_at 1 m2, AvlMap_size m1, AvlMap_size m2))
     (do {
        m1 \<leftarrow> AvlMap_insert (1 :: int) (10 :: int) AvlMap_new;
        m2 \<leftarrow> AvlMap_insert 1 20 m1;
        Some (m1, m2)
      })
   = Some (Some (Inr 10), 1, 2)"
  by (simp add: map_eval ALLOWED_IMBALANCE_def)

subsection \<open>C3: removing an absent key\<close>

text \<open>
  Claim C3. Removing a key that is not present should change neither \<^verbatim>\<open>size()\<close> nor the
  in-order sequence. \<^verbatim>\<open>AvlTree::remove\<close> and \<^verbatim>\<open>AvlMap::erase\<close> execute \<^verbatim>\<open>--sz\<close> whatever
  \<^verbatim>\<open>remove_util\<close> found. Evaluated: a set and a map holding the single key 1 report size 0
  after the removal of the absent key 2 while still enumerating the key 1, and on the
  empty set the count wraps around to \<open>2^64 - 1\<close>. (In every reachable state the call
  returns, the in-order sequence is kept and the count goes down by one: lemmas
  \<open>AvlTree_remove_reachable\<close> and \<open>AvlMap_erase_absent\<close>.)
\<close>

theorem remove_absent_key_decrements_size:
  "map_option (\<lambda>c. (inorder (root c), AvlTree_size c))
     (do { c \<leftarrow> AvlTree_insert (1 :: int) AvlTree_new; AvlTree_remove 2 c })
   = Some ([1], 0)
   \<and> map_option (\<lambda>m. (minorder (mroot m), AvlMap_size m))
     (do { m \<leftarrow> AvlMap_insert (1 :: int) (7 :: int) AvlMap_new; AvlMap_erase 2 m })
   = Some ([(1, 7)], 0)
   \<and> map_option AvlTree_size (AvlTree_remove (2 :: int) AvlTree_new)
   = Some 18446744073709551615"
  by (simp add: set_eval map_eval ALLOWED_IMBALANCE_def)

subsection \<open>C4: balance and order after every mutating operation\<close>

text \<open>
  Claim C4. After every public mutating operation, the map's \<^verbatim>\<open>operator[]\<close> included,
  the heights of the two subtrees of every node should differ by at most 1.
  \<^verbatim>\<open>AvlMap::operator[]\<close> calls \<^verbatim>\<open>insert_util\<close> on the slot that \<^verbatim>\<open>search\<close> returned, so that
  \<^verbatim>\<open>balance\<close> runs on the new leaf only and on none of its ancestors. Evaluated: \<^verbatim>\<open>m[1]\<close>,
  \<^verbatim>\<open>m[2]\<close>, \<^verbatim>\<open>m[3]\<close> on an empty map build the chain 1, 2, 3 of right children, whose root
  has subtrees of heights \<open>- 1\<close> and 1. (\<^verbatim>\<open>insert\<close>, \<^verbatim>\<open>erase\<close> and bulk construction, which
  rebalance the whole path, keep the AVL condition and the key order: lemmas
  \<open>AvlMap_insert_mavl\<close>, \<open>AvlMap_erase_mavl\<close>, \<open>AvlMap_of_range_mavl\<close>, and for the set
  \<open>reachable_set_invariants\<close>; the key order survives \<^verbatim>\<open>operator[]\<close> too: lemma
  \<open>reachable_invariants\<close>.)
\<close>

theorem index_operator_breaks_balance:
  "map_option (\<lambda>(p, m). (mroot m, mbalanced (mroot m)))
     (do {
        (p, m) \<leftarrow> AvlMap_index (0 :: int) (1 :: int) AvlMap_new;
        (p, m) \<leftarrow> AvlMap_index 0 2 m;
        AvlMap_index 0 3 m
      })
   = Some (MNode MNull (MNode MNull (MNode MNull MNull 3 0 0) 2 0 0) 1 0 0, False)"
  by (simp add: map_eval ALLOWED_IMBALANCE_def)

subsection \<open>C5: the element count and the number of nodes\<close>

text \<open>
  Claim C5. After every public mutating operation (\<^verbatim>\<open>clear\<close>, the removal of an absent
  key and the insertion of a duplicate key included) \<^verbatim>\<open>size()\<close> should be the number of
  nodes reachable from the root. \<^verbatim>\<open>clear\<close> resets the root pointer and leaves \<^verbatim>\<open>sz\<close> as
  it was; \<^verbatim>\<open>remove\<close> and \<^verbatim>\<open>erase\<close> decrement \<^verbatim>\<open>sz\<close> for an absent key; the map's \<^verbatim>\<open>insert\<close>
  increments it for a key already there. Evaluated: a set and a map with one element
  report size 1 after \<^verbatim>\<open>clear()\<close>, with no node left; the set holding the key 1 reports
  size 0 after \<^verbatim>\<open>remove(2)\<close>, with one node; the map reports size 2 after two inserts of
  the key 1, with one node.
\<close>

theorem size_differs_from_node_count:
  "map_option (\<lambda>c. (AvlTree_size (AvlTree_clear c), count_nodes (root (AvlTree_clear c))))
     (AvlTree_insert (1 :: int) AvlTree_new)
   = Some (1, 0)
   \<and> map_option (\<lambda>m. (AvlMap_size (AvlMap_clear m), mcount_nodes (mroot (AvlMap_clear m))))
     (AvlMap_insert (1 :: int) (7 :: int) AvlMap_new)
   = Some (1, 0)
   \<and> map_option (\<lambda>c. (AvlTree_size c, count_nodes (root c)))
     (do { c \<leftarrow> AvlTree_insert (1 :: int) AvlTree_new; AvlTree_remove 2 c })
   = Some (0, 1)
   \<and> map_option (\<lambda>m. (AvlMap_size m, mcount_nodes (mroot m)))
     (do { m \<leftarrow> AvlMap_insert (1 :: int) (7 :: int) AvlMap_new; AvlMap_insert 1 8 m })
   = Some (2, 1)"
  by (simp add: set_eval map_eval ALLOWED_IMBALANCE_def)

subsection \<open>C6: minimum and maximum of an empty container\<close>

text \<open>
  Claim C6. \<^verbatim>\<open>min_element\<close> and \<^verbatim>\<open>max_element\<close> should fail with the empty-container
  error exactly when the set holds no element. They test \<^verbatim>\<open>empty()\<close>, which reads \<^verbatim>\<open>sz\<close>,
  not the root. Evaluated: after \<^verbatim>\<open>insert(1)\<close> and \<^verbatim>\<open>clear()\<close> the count is 1, the test
  passes and the null pointer returned by \<^verbatim>\<open>findMin\<close> (\<^verbatim>\<open>findMax\<close>) is dereferenced, so
  no error is reported; after \<^verbatim>\<open>insert(1)\<close> and \<^verbatim>\<open>remove(2)\<close> the count is 0 and both
  calls report the empty-container error although the key 1 is stored. (When the count
  is not 0 and the tree is a non-empty search tree, the two calls return the least and
  the greatest key: lemma \<open>min_max_element_nonempty\<close>.)
\<close>

theorem min_max_after_clear_undefined:
  "(do { c \<leftarrow> AvlTree_insert (1 :: int) AvlTree_new; min_element (AvlTree_clear c) }) = None
   \<and> (do { c \<leftarrow> AvlTree_insert (1 :: int) AvlTree_new; max_element (AvlTree_clear c) }) = None
   \<and> map_option (\<lambda>c. (inorder (root c), min_element c, max_element c))
        (do { c \<leftarrow> AvlTree_insert (1 :: int) AvlTree_new; AvlTree_remove 2 c })
      = Some ([1], Some (Inl EmptyContainer), Some (Inl EmptyContainer))"
  by (simp add: set_eval ALLOWED_IMBALANCE_def)

subsection \<open>C7: access-or-insert on an absent key\<close>

text \<open>
  Claim C7. For the map and a key \<open>k\<close> that no node holds, \<^verbatim>\<open>m[k]\<close> should insert a
  node with the default value and increase \<^verbatim>\<open>size()\<close> by exactly 1, and a subsequent
  \<^verbatim>\<open>m[k]\<close> should return that default value unless it has been reassigned. The call
  itself does insert the default value, and an immediately repeated \<^verbatim>\<open>m[k]\<close> reads it
  (lemma \<open>AvlMap_index_absent\<close>), but the value does not stay with its key: in the
  two-children case \<^verbatim>\<open>AvlMap::remove_util\<close> copies only the key of the in-order successor
  into the node (\<^verbatim>\<open>t->key = findMin(t->right)->key\<close>) and then removes the successor's
  node, so that the successor's key ends up with the value of the erased key.
  Evaluated: after \<^verbatim>\<open>insert(2, 20)\<close>, \<^verbatim>\<open>insert(1, 10)\<close>, the first \<^verbatim>\<open>m[3]\<close> reads the
  default 0; after \<^verbatim>\<open>erase(2)\<close> the second \<^verbatim>\<open>m[3]\<close> reads 20, although nothing was
  assigned to the key 3, and the map enumerates \<open>(1, 10), (3, 20)\<close>. Moreover the
  count grows by 1 only in the arithmetic of \<^verbatim>\<open>std::size_t\<close>: after \<^verbatim>\<open>erase(2)\<close> on an empty
  map (the defect of claim C3) \<^verbatim>\<open>m[1]\<close> takes \<^verbatim>\<open>size()\<close> from \<open>2^64 - 1\<close> to 0.
\<close>

theorem erase_moves_value_under_indexed_key:
  "(do {
      m \<leftarrow> AvlMap_insert (2 :: int) (20 :: int) AvlMap_new;
      m \<leftarrow> AvlMap_insert 1 10 m;
      (p, m) \<leftarrow> AvlMap_index 0 3 m;
      first \<leftarrow> read_ref p m;
      m \<leftarrow> AvlMap_erase 2 m;
      (q, m) \<leftarrow> AvlMap_index 0 3 m;
      second \<leftarrow> read_ref q m;
      Some (first, second, minorder (mroot m))
    }) = Some (0, 20, [(1, 10), (3, 20)])
   \<and> (do {
      m \<leftarrow> AvlMap_erase (2 :: int) (AvlMap_new :: (int, int) AvlMap);
      (p, m') \<leftarrow> AvlMap_index 0 1 m;
      Some (AvlMap_size m, AvlMap_size m')
    }) = Some (18446744073709551615, 0)"
  by (simp add: map_eval ALLOWED_IMBALANCE_def)

subsection \<open>C8: the cached height of every node\<close>

text \<open>
  Claim C8. After every public mutating operation every height field should hold
  \<open>1 + max\<close> of the heights of the two children. \<^verbatim>\<open>AvlMap::operator[]\<close> inserts the new
  leaf through the slot that \<^verbatim>\<open>search\<close> returned and updates no ancestor (the defect of
  claim C4). Evaluated: after \<^verbatim>\<open>m[1]\<close> and \<^verbatim>\<open>m[2]\<close> on an empty map the root has a right
  child of height 0 and still the height 0. (The rotations and \<^verbatim>\<open>balance\<close> do write
  \<open>1 + max\<close> into every node they touch, and \<^verbatim>\<open>insert\<close> and \<^verbatim>\<open>erase\<close> keep the equality
  for every node: lemmas \<open>mbalance_mavl\<close>, \<open>minsert_util_mavl\<close>, \<open>mremove_util_mavl\<close>.)
\<close>

theorem index_operator_leaves_stale_height:
  "map_option (\<lambda>(p, m). (mroot m, mheights_cached (mroot m)))
     (do {
        (p, m) \<leftarrow> AvlMap_index (0 :: int) (1 :: int) AvlMap_new;
        AvlMap_index 0 2 m
      })
   = Some (MNode MNull (MNode MNull MNull 2 0 0) 1 0 0, False)"
  by (simp add: map_eval ALLOWED_IMBALANCE_def)

subsection \<open>C9: the choice between single and double rotation\<close>

text \<open>
  Claim C9. When \<^verbatim>\<open>balance\<close> finds a node whose left subtree is more than one level
  higher than the right one, it produces the single right rotation if
  \<open>height(left.left) \<ge> height(left.right)\<close> and the left-right double rotation otherwise,
  and symmetrically for a node whose right subtree is higher; a tie of the inner
  comparison selects the single rotation. The four shapes are spelled out, with the
  height fields that \<^verbatim>\<open>balance\<close> writes, for \<^verbatim>\<open>AvlTree::balance\<close> and for
  \<^verbatim>\<open>AvlMap::balance\<close>.
\<close>

theorem balance_tie_break:
  "(1 < lh - height r \<and> height lr \<le> height ll \<longrightarrow>
      balance (Node (Node ll lr ld lh) r d h) =
        Some (Node ll (Node lr r d (max (height lr) (height r) + 1)) ld
               (max (height ll) (max (height lr) (height r) + 1) + 1))) \<and>
   (1 < lh - height r \<and> height ll < lrh \<longrightarrow>
      balance (Node (Node ll (Node lrl lrr lrd lrh) ld lh) r d h) =
        Some (Node (Node ll lrl ld (max (height ll) (height lrl) + 1))
               (Node lrr r d (max (height lrr) (height r) + 1)) lrd
               (max (max (height ll) (height lrl) + 1) (max (height lrr) (height r) + 1) + 1))) \<and>
   (1 < rh - height l \<and> height rl \<le> height rr \<longrightarrow>
      balance (Node l (Node rl rr rd rh) d h) =
        Some (Node (Node l rl d (max (height l) (height rl) + 1)) rr rd
               (max (max (height l) (height rl) + 1) (height rr) + 1))) \<and>
   (1 < rh - height l \<and> height rr < rlh \<longrightarrow>
      balance (Node l (Node (Node rll rlr rld rlh) rr rd rh) d h) =
        Some (Node (Node l rll d (max (height l) (height rll) + 1))
               (Node rlr rr rd (max (height rlr) (height rr) + 1)) rld
               (max (max (height l) (height rll) + 1) (max (height rlr) (height rr) + 1) + 1))) \<and>
   (1 < mlh - mheight mr \<and> mheight mlr \<le> mheight mll \<longrightarrow>
      mbalance (MNode (MNode mll mlr mlk mlv mlh) mr mk mv mh) =
        Some (MNode mll (MNode mlr mr mk mv (max (mheight mlr) (mheight mr) + 1)) mlk mlv
               (max (mheight mll) (max (mheight mlr) (mheight mr) + 1) + 1))) \<and>
   (1 < mlh - mheight mr \<and> mheight mll < mlrh \<longrightarrow>
      mbalance (MNode (MNode mll (MNode mlrl mlrr mlrk mlrv mlrh) mlk mlv mlh) mr mk mv mh) =
        Some (MNode (MNode mll mlrl mlk mlv (max (mheight mll) (mheight mlrl) + 1))
               (MNode mlrr mr mk mv (max (mheight mlrr) (mheight mr) + 1)) mlrk mlrv
               (max (max (mheight mll) (mheight mlrl) + 1)
                    (max (mheight mlrr) (mheight mr) + 1) + 1))) \<and>
   (1 < mrh - mheight ml \<and> mheight mrl \<le> mheight mrr \<longrightarrow>
      mbalance (MNode ml (MNode mrl mrr mrk mrv mrh) mk mv mh) =
        Some (MNode (MNode ml mrl mk mv (max (mheight ml) (mheight mrl) + 1)) mrr mrk mrv
               (max (max (mheight ml) (mheight mrl) + 1) (mheight mrr) + 1))) \<and>
   (1 < mrh - mheight ml \<and> mheight mrr < mrlh \<longrightarrow>
      mbalance (MNode ml (MNode (MNode mrll mrlr mrlk mrlv mrlh) mrr mrk mrv mrh) mk mv mh) =
        Some (MNode (MNode ml mrll mk mv (max (mheight ml) (mheight mrll) + 1))
               (MNode mrlr mrr mrk mrv (max (mheight mrlr) (mheight mrr) + 1)) mrlk mrlv
               (max (max (mheight ml) (mheight mrll) + 1)
                    (max (mheight mrlr) (mheight mrr) + 1) + 1)))"
  by (intro conjI impI; elim conjE;
      (erule (1) balance_left_single | erule (1) balance_left_double
       | erule (1) balance_right_single | erule (1) balance_right_double
       | erule (1) mbalance_left_single | erule (1) mbalance_left_double
       | erule (1) mbalance_right_single | erule (1) mbalance_right_double))

text \<open>
  The theorem at four set trees: a tie on the left (single rotation), a left child
  whose right subtree is higher (double rotation), and the two mirror images.
\<close>

theorem balance_tie_break_witness:
  "balance (Node (Node (Node Null Null 1 0) (Node Null Null 3 0) 2 1) Null (4 :: int) 2) =
     Some (Node (Node Null Null 1 0) (Node (Node Null Null 3 0) Null 4 1) 2 2) \<and>
   balance (Node (Node Null (Node Null Null 2 0) 1 1) Null (3 :: int) 2) =
     Some (Node (Node Null Null 1 0) (Node Null Null 3 0) 2 1) \<and>
   balance (Node Null (Node (Node Null Null 2 0) (Node Null Null 4 0) 3 1) (1 :: int) 2) =
     Some (Node (Node Null (Node Null Null 2 0) 1 1) (Node Null Null 4 0) 3 2) \<and>
   balance (Node Null (Node (Node Null Null 2 0) Null 3 1) (1 :: int) 2) =
     Some (Node (Node Null Null 1 0) (Node Null Null 3 0) 2 1) \<and>
   mbalance (MNode (MNode (MNode MNull MNull 1 0 0) (MNode MNull MNull 3 0 0) 2 0 1) MNull
      (4 :: int) (0 :: int) 2) =
     Some (MNode (MNode MNull MNull 1 0 0) (MNode (MNode MNull MNull 3 0 0) MNull 4 0 1) 2 0 2) \<and>
   mbalance (MNode (MNode MNull (MNode MNull MNull 2 0 0) 1 0 1) MNull (3 :: int) (0 :: int) 2) =
     Some (MNode (MNode MNull MNull 1 0 0) (MNode MNull MNull 3 0 0) 2 0 1) \<and>
   mbalance (MNode MNull (MNode (MNode MNull MNull 2 0 0) (MNode MNull MNull 4 0 0) 3 0 1)
      (1 :: int) (0 :: int) 2) =
     Some (MNode (MNode MNull (MNode MNull MNull 2 0 0) 1 0 1) (MNode MNull MNull 4 0 0) 3 0 2) \<and>
   mbalance (MNode MNull (MNode (MNode MNull MNull 2 0 0) MNull 3 0 1) (1 :: int) (0 :: int) 2) =
     Some (MNode (MNode MNull MNull 1 0 0) (MNode MNull MNull 3 0 0) 2 0 1)"
  using
    balance_tie_break [where lh = 1 and r = Null and ll = "Node Null Null 1 0"
      and lr = "Node Null Null 3 0" and ld = 2 and d = "4 :: int" and h = 2,
      THEN conjunct1]
    balance_tie_break [where lh = 1 and r = Null and ll = Null and lrh = 0
      and lrl = Null and lrr = Null and lrd = 2 and ld = 1 and d = "3 :: int" and h = 2,
      THEN conjunct2, THEN conjunct1]
    balance_tie_break [where rh = 1 and l = Null and rl = "Node Null Null 2 0"
      and rr = "Node Null Null 4 0" and rd = 3 and d = "1 :: int" and h = 2,
      THEN conjunct2, THEN conjunct2, THEN conjunct1]
    balance_tie_break [where rh = 1 and l = Null and rr = Null and rlh = 0
      and rll = Null and rlr = Null and rld = 2 and rd = 3 and d = "1 :: int" and h = 2,
      THEN conjunct2, THEN conjunct2, THEN conjunct2, THEN conjunct1]
    balance_tie_break [where mlh = 1 and mr = MNull and mll = "MNode MNull MNull 1 0 0"
      and mlr = "MNode MNull MNull 3 0 0" and mlk = 2 and mlv = 0 and mk = "4 :: int"
      and mv = "0 :: int" and mh = 2,
      THEN conjunct2, THEN conjunct2, THEN conjunct2, THEN conjunct2, THEN conjunct1]
    balance_tie_break [where mlh = 1 and mr = MNull and mll = MNull and mlrh = 0
      and mlrl = MNull and mlrr = MNull and mlrk = 2 and mlrv = 0 and mlk = 1 and mlv = 0
      and mk = "3 :: int" and mv = "0 :: int" and mh = 2,
      THEN conjunct2, THEN conjunct2, THEN conjunct2, THEN conjunct2, THEN conjunct2,
      THEN conjunct1]
    balance_tie_break [where mrh = 1 and ml = MNull and mrl = "MNode MNull MNull 2 0 0"
      and mrr = "MNode MNull MNull 4 0 0" and mrk = 3 and mrv = 0 and mk = "1 :: int"
      and mv = "0 :: int" and mh = 2,
      THEN conjunct2, THEN conjunct2, THEN conjunct2, THEN conjunct2, THEN conjunct2,
      THEN conjunct2, THEN conjunct1]
    balance_tie_break [where mrh = 1 and ml = MNull and mrr = MNull and mrlh = 0
      and mrll = MNull and mrlr = MNull and mrlk = 2 and mrlv = 0 and mrk = 3 and mrv = 0
      and mk = "1 :: int" and mv = "0 :: int" and mh = 2,
      THEN conjunct2, THEN conjunct2, THEN conjunct2, THEN conjunct2, THEN conjunct2,
      THEN conjunct2, THEN conjunct2]
  by (simp del: balance.simps mbalance.simps)

subsection \<open>C10: the const overload of \<^verbatim>\<open>at\<close>\<close>

text \<open>
  Claim C10. For every map and every key, a call of the const overload of
  \<^verbatim>\<open>AvlMap::at\<close> neither returns a value nor throws: the call has no result.
\<close>

theorem at_const_never_returns: "AvlMap_at_const k m = None"
proof (cases "AvlMap_at_const k m")
  case None
  then show ?thesis .
next
  case (Some y)
  then have False
    by (rule AvlMap_at_const.raw_induct [where P = "\<lambda>_ _ _. False", rotated]) blast
  then show ?thesis ..
qed

end
